theory Spec2Isabelle
  imports Complex_Main "HOL-Library.Monad_Syntax" "HOL-Library.Sublist" "HOL-Library.Log_Nat"
begin

section \<open>JavaScript numbers\<close>

text \<open>
  A JavaScript \<open>number\<close> is an IEEE 754 binary64 value: NaN, an infinity, or a finite
  double, which is kept as the real number it denotes. Every arithmetic operation
  computes the exact real result and rounds it to the nearest double, ties to even
  (\<open>fl\<close> below). The sign of zero is not represented.
\<close>

datatype jsnum = NaN | NegInf | Fin real | PosInf

text \<open>
  Rounding to binary64. \<open>rne\<close> rounds a real to the nearest integer, ties to even;
  \<open>ilog2 x\<close> is the integer \<open>k\<close> with \<open>2^k \<le> x < 2^(k+1)\<close> for \<open>x > 0\<close>; \<open>ulp_exp x\<close> is
  the exponent of the spacing of the doubles around \<open>x\<close> (53 significant bits, never
  below the subnormal spacing \<open>2^-1074\<close>); \<open>round_double\<close> rounds on that grid, and \<open>fl\<close>
  turns a result of magnitude \<open>2^1024\<close> or more into an infinity. \<open>is_double x\<close> says
  that \<open>x\<close> is a finite double, and \<open>js_lit\<close> is the value of a decimal literal.
\<close>

definition rne :: "real \<Rightarrow> int" where
  "rne q = (let f = \<lfloor>q\<rfloor>; r = q - of_int f
            in if r < 1 / 2 then f else if 1 / 2 < r then f + 1 else if even f then f else f + 1)"

definition ilog2 :: "real \<Rightarrow> int" where
  "ilog2 x = (if 1 \<le> x then bitlen \<lfloor>x\<rfloor> - 1 else - bitlen (\<lceil>1 / x\<rceil> - 1))"

definition ulp_exp :: "real \<Rightarrow> int" where
  "ulp_exp x = max (ilog2 \<bar>x\<bar> - 52) (- 1074)"

definition round_double :: "real \<Rightarrow> real" where
  "round_double x = (if x = 0 then 0 else of_int (rne (x / 2 powi ulp_exp x)) * 2 powi ulp_exp x)"

definition fl :: "real \<Rightarrow> jsnum" where
  "fl x = (let y = round_double x
           in if 2 ^ 1024 \<le> \<bar>y\<bar> then (if 0 < y then PosInf else NegInf) else Fin y)"

definition is_double :: "real \<Rightarrow> bool" where
  "is_double x = (fl x = Fin x)"

definition js_lit :: "real \<Rightarrow> jsnum" where
  "js_lit x = fl x"

fun isFinite :: "jsnum \<Rightarrow> bool" where
  "isFinite (Fin _) = True"
| "isFinite _ = False"

fun isNaN :: "jsnum \<Rightarrow> bool" where
  "isNaN NaN = True"
| "isNaN _ = False"

text \<open>The relational operators \<open><\<close>, \<open>>\<close> and \<open>===\<close>: every comparison with NaN is false.\<close>

fun js_lt :: "jsnum \<Rightarrow> jsnum \<Rightarrow> bool" where
  "js_lt NaN _ = False"
| "js_lt _ NaN = False"
| "js_lt (Fin a) (Fin b) = (a < b)"
| "js_lt NegInf NegInf = False"
| "js_lt NegInf _ = True"
| "js_lt _ NegInf = False"
| "js_lt PosInf _ = False"
| "js_lt _ PosInf = True"

definition js_gt :: "jsnum \<Rightarrow> jsnum \<Rightarrow> bool" where
  "js_gt a b = js_lt b a"

definition js_eq :: "jsnum \<Rightarrow> jsnum \<Rightarrow> bool" where
  "js_eq a b = (\<not> isNaN a \<and> \<not> isNaN b \<and> a = b)"

fun js_neg :: "jsnum \<Rightarrow> jsnum" where
  "js_neg NaN = NaN"
| "js_neg NegInf = PosInf"
| "js_neg PosInf = NegInf"
| "js_neg (Fin a) = Fin (- a)"

fun js_add :: "jsnum \<Rightarrow> jsnum \<Rightarrow> jsnum" where
  "js_add NaN _ = NaN"
| "js_add _ NaN = NaN"
| "js_add (Fin a) (Fin b) = fl (a + b)"
| "js_add PosInf NegInf = NaN"
| "js_add NegInf PosInf = NaN"
| "js_add PosInf _ = PosInf"
| "js_add NegInf _ = NegInf"
| "js_add _ PosInf = PosInf"
| "js_add _ NegInf = NegInf"

definition js_sub :: "jsnum \<Rightarrow> jsnum \<Rightarrow> jsnum" where
  "js_sub a b = js_add a (js_neg b)"

text \<open>The sign of a non-NaN number as seen by multiplication and division (zero counts as positive).\<close>

fun js_nonneg :: "jsnum \<Rightarrow> bool" where
  "js_nonneg (Fin a) = (0 \<le> a)"
| "js_nonneg PosInf = True"
| "js_nonneg _ = False"

definition js_signed_inf :: "bool \<Rightarrow> jsnum" where
  "js_signed_inf pos = (if pos then PosInf else NegInf)"

fun js_mul :: "jsnum \<Rightarrow> jsnum \<Rightarrow> jsnum" where
  "js_mul NaN _ = NaN"
| "js_mul _ NaN = NaN"
| "js_mul (Fin a) (Fin b) = fl (a * b)"
| "js_mul (Fin a) b = (if a = 0 then NaN else js_signed_inf (js_nonneg (Fin a) = js_nonneg b))"
| "js_mul a (Fin b) = (if b = 0 then NaN else js_signed_inf (js_nonneg a = js_nonneg (Fin b)))"
| "js_mul a b = js_signed_inf (js_nonneg a = js_nonneg b)"

fun js_div :: "jsnum \<Rightarrow> jsnum \<Rightarrow> jsnum" where
  "js_div NaN _ = NaN"
| "js_div _ NaN = NaN"
| "js_div (Fin a) (Fin b) =
     (if b = 0 then (if a = 0 then NaN else js_signed_inf (0 < a)) else fl (a / b))"
| "js_div (Fin a) _ = Fin 0"
| "js_div a (Fin b) = js_signed_inf (js_nonneg a = js_nonneg (Fin b))"
| "js_div _ _ = NaN"

text \<open>\<open>Math.min\<close> and \<open>Math.max\<close> of an argument list: NaN if any argument is NaN,
  \<open>Infinity\<close> (resp. \<open>-Infinity\<close>) when called without arguments.\<close>

definition js_min2 :: "jsnum \<Rightarrow> jsnum \<Rightarrow> jsnum" where
  "js_min2 a b = (if isNaN a \<or> isNaN b then NaN else if js_lt b a then b else a)"

definition js_max2 :: "jsnum \<Rightarrow> jsnum \<Rightarrow> jsnum" where
  "js_max2 a b = (if isNaN a \<or> isNaN b then NaN else if js_lt a b then b else a)"

definition Math_min :: "jsnum list \<Rightarrow> jsnum" where
  "Math_min xs = foldr js_min2 xs PosInf"

definition Math_max :: "jsnum list \<Rightarrow> jsnum" where
  "Math_max xs = foldr js_max2 xs NegInf"

text \<open>Reading an array element: an index outside the array gives \<open>undefined\<close>, which
  the callers below fold with \<open>null\<close> (\<open>x == null\<close>); both are \<open>None\<close> here.\<close>

definition js_index :: "'a option list \<Rightarrow> nat \<Rightarrow> 'a option" where
  "js_index xs i = (if i < length xs then xs ! i else None)"


section \<open>Risk heatmap: RiskHeatmapPanel.tsx\<close>

definition DISABLED_COLOR :: string where "DISABLED_COLOR = ''#c4b5fd''"
definition NO_SENSOR_COLOR :: string where "NO_SENSOR_COLOR = ''#d1d5db''"
definition NO_DATA_COLOR :: string where "NO_DATA_COLOR = ''#f3f4f6''"

text \<open>The fields of \<open>RiskHeatmapRow\<close> and \<open>RiskHeatmapResp\<close> (types/charts.ts) that
  the cell renderers read; \<open>values\<close> and \<open>risk\<close> are \<open>row_values\<close> and \<open>row_risk\<close>.\<close>

record RiskHeatmapRow =
  row_values :: "jsnum option list"
  row_risk :: "jsnum option list"
  enabled :: bool
  has_sensor :: bool

record RiskHeatmapResp =
  labels :: "string list"
  rows :: "RiskHeatmapRow list"

text \<open>\<open>clampRisk(risk: number | null | undefined)\<close>.\<close>

definition clampRisk :: "jsnum option \<Rightarrow> jsnum option" where
  "clampRisk risk =
     (case risk of
        None \<Rightarrow> None
      | Some r \<Rightarrow>
          if isNaN r then None
          else if js_lt r (Fin 0) then Some (Fin 0)
          else if js_gt r (Fin 1) then Some (Fin 1)
          else Some r)"

text \<open>
  \<open>colorForRisk\<close>. The conversion of a number to text inside the template literal is
  the runtime's \<open>Number::toString\<close>; it is the parameter \<open>str\<close>.
\<close>

definition hueForRisk :: "jsnum \<Rightarrow> jsnum" where
  "hueForRisk risk = js_sub (Fin 120) (js_mul risk (Fin 120))"

definition lightnessForRisk :: "jsnum \<Rightarrow> jsnum" where
  "lightnessForRisk risk = js_sub (Fin 65) (js_mul risk (Fin 20))"

definition colorForRisk :: "(jsnum \<Rightarrow> string) \<Rightarrow> jsnum \<Rightarrow> string" where
  "colorForRisk str risk =
     ''hsl('' @ str (hueForRisk risk) @ '', 85%, '' @ str (lightnessForRisk risk) @ ''%)''"

text \<open>
  The body of the inner \<open>forEach\<close> of \<open>renderHeatmapToCanvas\<close>: the fill colour and the
  optional text of the cell in column \<open>colIdx\<close> of \<open>row\<close>. \<open>toFixed\<close> is the runtime's
  \<open>Number.prototype.toFixed\<close>, taking the number of digits first.
\<close>

definition canvasCell ::
  "(jsnum \<Rightarrow> string) \<Rightarrow> (nat \<Rightarrow> jsnum \<Rightarrow> string) \<Rightarrow> RiskHeatmapRow \<Rightarrow> nat \<Rightarrow> string \<times> string option" where
  "canvasCell str toFixed row colIdx =
     (let val = js_index (row_values row) colIdx;
          risk = clampRisk (js_index (row_risk row) colIdx)
      in if \<not> has_sensor row then (NO_SENSOR_COLOR, None)
         else if \<not> enabled row then (DISABLED_COLOR, None)
         else (case (val, risk) of
                 (Some v, Some r) \<Rightarrow> (colorForRisk str r, Some (toFixed 1 v))
               | _ \<Rightarrow> (NO_DATA_COLOR, None)))"

text \<open>
  The element returned by the interactive \<open>renderCell\<close>: its background colour, its text
  colour and its content, which is either a status caption or the value with the risk
  percentage below it.
\<close>

datatype cell_content = Caption string | ValueAndRisk string string

record cell_view =
  backgroundColor :: string
  color :: string
  content :: cell_content

datatype js_error = TypeError | OtherError

text \<open>
  \<open>renderCell(rowIndex, colIndex)\<close> over the panel's \<open>data\<close> state. Without data it
  returns \<open>null\<close>; a row index outside \<open>data.rows\<close> makes \<open>row\<close> undefined and the
  read of \<open>row.risk\<close> throws.
\<close>

definition renderCell ::
  "(jsnum \<Rightarrow> string) \<Rightarrow> (nat \<Rightarrow> jsnum \<Rightarrow> string) \<Rightarrow> RiskHeatmapResp option \<Rightarrow> nat \<Rightarrow> nat
     \<Rightarrow> js_error + cell_view option" where
  "renderCell str toFixed data rowIndex colIndex =
     (case data of
        None \<Rightarrow> Inr None
      | Some d \<Rightarrow>
          if \<not> rowIndex < length (rows d) then Inl TypeError
          else
            (let row = rows d ! rowIndex;
                 rawRisk = clampRisk (js_index (row_risk row) colIndex);
                 val = js_index (row_values row) colIndex
             in if \<not> has_sensor row then
                  Inr (Some \<lparr>backgroundColor = NO_SENSOR_COLOR, color = ''#374151'',
                             content = Caption ''No sensor''\<rparr>)
                else if \<not> enabled row then
                  Inr (Some \<lparr>backgroundColor = DISABLED_COLOR, color = ''#312e81'',
                             content = Caption ''Disabled''\<rparr>)
                else (case (val, rawRisk) of
                        (Some v, Some r) \<Rightarrow>
                          Inr (Some \<lparr>backgroundColor = colorForRisk str r, color = ''#111827'',
                                     content = ValueAndRisk (toFixed 1 v)
                                       (''Risk '' @ toFixed 0 (js_mul r (Fin 100)) @ ''%'')\<rparr>)
                      | _ \<Rightarrow>
                          Inr (Some \<lparr>backgroundColor = NO_DATA_COLOR, color = ''#6b7280'',
                                     content = Caption ''No data''\<rparr>))))"

text \<open>The numeric value text of an interactive cell, if it shows one.\<close>

fun value_text :: "cell_content \<Rightarrow> string option" where
  "value_text (ValueAndRisk v _) = Some v"
| "value_text (Caption _) = None"


text \<open>
  Column ticks of \<open>renderHeatmapToCanvas\<close>. \<open>tickEvery\<close> is
  \<open>Math.max(1, Math.ceil(cols / maxXTicks))\<close>; \<open>tickLoop\<close> is the \<open>for\<close> loop, returning
  the columns it labels (the contents of \<open>drawnTicks\<close>) in order.
\<close>

definition maxXTicks :: nat where "maxXTicks = 12"

definition tickEvery :: "nat \<Rightarrow> nat" where
  "tickEvery cols = max 1 ((cols + (maxXTicks - 1)) div maxXTicks)"

function tickLoop :: "nat \<Rightarrow> nat \<Rightarrow> nat list" where
  "tickLoop cols col = (if col < cols then col # tickLoop cols (col + tickEvery cols) else [])"
  by pat_completeness auto
termination
  by (relation "measure (\<lambda>(cols, col). cols - col)") (auto simp: tickEvery_def)

declare tickLoop.simps [simp del]

text \<open>
  All columns at which \<open>renderHeatmapToCanvas\<close> draws a tick label, in order: the loop's
  columns, then the last column when the loop did not reach it. \<open>None\<close> is the early
  \<open>return false\<close>, before anything is drawn: no labels or no rows, or no 2d context
  (\<open>hasContext\<close> tells whether \<open>canvas.getContext('2d')\<close> gave one).
\<close>

definition drawnTickColumns :: "bool \<Rightarrow> nat \<Rightarrow> nat \<Rightarrow> nat list option" where
  "drawnTickColumns hasContext cols rowsCount =
     (if cols = 0 \<or> rowsCount = 0 then None
      else if \<not> hasContext then None
      else Some (let drawnTicks = tickLoop cols 0
                 in if cols - 1 \<in> set drawnTicks then drawnTicks else drawnTicks @ [cols - 1]))"


section \<open>Scatter plot: ScatterPlotSVG.tsx\<close>

fun Math_abs :: "jsnum \<Rightarrow> jsnum" where
  "Math_abs NaN = NaN"
| "Math_abs (Fin a) = Fin \<bar>a\<bar>"
| "Math_abs _ = PosInf"

text \<open>\<open>a || b\<close> on numbers: zero and NaN are falsy.\<close>

definition js_or :: "jsnum \<Rightarrow> jsnum \<Rightarrow> jsnum" where
  "js_or a b = (if a = Fin 0 \<or> isNaN a then b else a)"

definition padRange :: "jsnum \<Rightarrow> jsnum \<Rightarrow> jsnum \<times> jsnum" where
  "padRange mn mx =
     (if \<not> isFinite mn \<or> \<not> isFinite mx then (mn, mx)
      else if js_eq mn mx then
        (let delta = Math_abs (js_or mn (Fin 1))
         in (js_sub mn (js_mul delta (js_lit 0.1)), js_add mx (js_mul delta (js_lit 0.1))))
      else
        (let span = js_sub mx mn;
             extra = js_mul span (js_lit 0.05)
         in (js_sub mn extra, js_add mx extra)))"


section \<open>Time series chart: ChartSVG.tsx\<close>

datatype threshold_kind = upper | lower

record Threshold =
  label :: string
  kind :: threshold_kind
  thr_value :: jsnum

text \<open>
  The Y domain \<open>[y0, y1]\<close> of \<open>ChartSVG\<close>; \<open>None\<close> is the "No data." placeholder
  returned when there are no labels or no data.
\<close>

definition ChartSVG_domain :: "string list \<Rightarrow> jsnum list \<Rightarrow> Threshold list \<Rightarrow> (jsnum \<times> jsnum) option" where
  "ChartSVG_domain lbls data thresholds =
     (if lbls = [] \<or> data = [] then None
      else
        (let thrVals = map thr_value thresholds;
             minY = Math_min (data @ (if thrVals \<noteq> [] then thrVals else [PosInf]));
             maxY = Math_max (data @ (if thrVals \<noteq> [] then thrVals else [NegInf]));
             y0 = (if js_eq minY maxY then js_sub minY (Fin 1) else minY);
             y1 = (if js_eq minY maxY then js_add maxY (Fin 1) else maxY)
         in Some (y0, y1)))"

text \<open>\<open>yscale\<close>, with \<open>height = 320\<close> and \<open>padding = {top: 32, bottom: 40}\<close>.\<close>

definition ChartSVG_yscale :: "jsnum \<Rightarrow> jsnum \<Rightarrow> jsnum \<Rightarrow> jsnum" where
  "ChartSVG_yscale y0 y1 v =
     js_add (Fin 32)
       (js_mul (js_sub (Fin 1) (js_div (js_sub v y0) (js_sub y1 y0))) (Fin (320 - 32 - 40)))"


section \<open>Report document: reportUtils.ts\<close>

text \<open>\<open>input.replace(/c/g, rep)\<close> for a single literal character \<open>c\<close>.\<close>

definition replaceAll :: "char \<Rightarrow> string \<Rightarrow> string \<Rightarrow> string" where
  "replaceAll c rep input = concat (map (\<lambda>x. if x = c then rep else [x]) input)"

definition dquote :: char where "dquote = CHR 0x22"
definition squote :: char where "squote = CHR 0x27"

definition escapeHtml :: "string \<Rightarrow> string" where
  "escapeHtml input =
     replaceAll squote ''&#39;''
       (replaceAll dquote ''&quot;''
         (replaceAll CHR ''>'' ''&gt;''
           (replaceAll CHR ''<'' ''&lt;''
             (replaceAll CHR ''&'' ''&amp;'' input))))"

text \<open>What \<open>escapeHtml\<close> makes of a single character; used to state its properties.\<close>

definition escapeChar :: "char \<Rightarrow> string" where
  "escapeChar c =
     (if c = CHR ''&'' then ''&amp;'' else if c = CHR ''<'' then ''&lt;''
      else if c = CHR ''>'' then ''&gt;'' else if c = dquote then ''&quot;''
      else if c = squote then ''&#39;'' else [c])"


text \<open>
  The \<open>filters\<close> of a report section (types/report.ts); the constructor is the section's
  \<open>kind\<close>. Arguments in order:
  timeseries: serial, metric, interval, aggregate, range;
  scatter: serial, xMetric, yMetric, interval, range;
  heatmap: serial, interval, aggregate, range, selectedMetrics, diseaseKey, diseaseName.
\<close>

datatype section_filters =
    TimeseriesFilters string string string string string
  | ScatterFilters string string string string string
  | HeatmapFilters string string string string "string list" "string option" "string option"

record 'd ReportSection =
  imageDataUrl :: string
  title :: string
  filters :: section_filters
  data :: 'd

text \<open>\<open>a || b\<close> on optional strings: \<open>undefined\<close> and the empty string are falsy.\<close>

definition str_or :: "string option \<Rightarrow> string option \<Rightarrow> string option" where
  "str_or a b = (case a of Some (c # cs) \<Rightarrow> a | _ \<Rightarrow> b)"





section \<open>Report collection: pages/Dashboard/index.tsx\<close>

record disease_info =
  disease_key :: string
  disease_name :: string
  disease_metrics :: "string list"

record 'd ChartsReport =
  generatedAt :: string
  houseId :: string
  disease :: "disease_info option"
  sections :: "'d ReportSection list"

datatype panel_kind = TimeseriesPanel | ScatterPanel | HeatmapPanel

text \<open>What the handler does to the outside, in order.\<close>

datatype 'd effect =
    SetReportDownloading bool
  | GetReportSection panel_kind
  | Alert string
  | ConsoleError js_error
  | DownloadChartsReport "'d ChartsReport"

text \<open>
  A panel ref is \<open>None\<close> when \<open>ref.current\<close> is null (then \<open>?.\<close> makes no call and the
  awaited value is undefined); otherwise it holds what awaiting the panel's
  \<open>getReportSection()\<close> gives: a rejection, \<open>null\<close>, or a section.
\<close>

type_synonym 'd panel_ref = "(js_error + 'd ReportSection option) option"

fun awaitSection :: "panel_kind \<Rightarrow> 'd panel_ref \<Rightarrow> 'd effect list \<times> (js_error + 'd ReportSection option)" where
  "awaitSection k None = ([], Inr None)"
| "awaitSection k (Some outcome) = ([GetReportSection k], outcome)"

definition push_section :: "'d ReportSection list \<Rightarrow> 'd ReportSection option \<Rightarrow> 'd ReportSection list" where
  "push_section secs s = (case s of None \<Rightarrow> secs | Some x \<Rightarrow> secs @ [x])"

text \<open>The three awaits of the \<open>try\<close> block, stopping at the first rejection.\<close>

definition collectSections ::
  "'d panel_ref \<Rightarrow> 'd panel_ref \<Rightarrow> 'd panel_ref \<Rightarrow> 'd effect list \<times> (js_error + 'd ReportSection list)" where
  "collectSections chartsPanelRef scatterPanelRef heatmapPanelRef =
     (case awaitSection TimeseriesPanel chartsPanelRef of
        (e1, Inl err) \<Rightarrow> (e1, Inl err)
      | (e1, Inr lineSection) \<Rightarrow>
          (case awaitSection ScatterPanel scatterPanelRef of
             (e2, Inl err) \<Rightarrow> (e1 @ e2, Inl err)
           | (e2, Inr scatterSection) \<Rightarrow>
               (case awaitSection HeatmapPanel heatmapPanelRef of
                  (e3, Inl err) \<Rightarrow> (e1 @ e2 @ e3, Inl err)
                | (e3, Inr heatmapSection) \<Rightarrow>
                    (e1 @ e2 @ e3,
                     Inr (push_section (push_section (push_section [] lineSection) scatterSection)
                            heatmapSection)))))"

text \<open>
  \<open>handleDownloadReport\<close>: the effects of one invocation. \<open>now\<close> is
  \<open>new Date().toISOString()\<close>, \<open>hid\<close> and \<open>selectedDisease\<close> are the component's state.
\<close>

definition handleDownloadReport ::
  "bool \<Rightarrow> string \<Rightarrow> string \<Rightarrow> disease_info option \<Rightarrow>
   'd panel_ref \<Rightarrow> 'd panel_ref \<Rightarrow> 'd panel_ref \<Rightarrow> 'd effect list" where
  "handleDownloadReport reportDownloading now hid selectedDisease
       chartsPanelRef scatterPanelRef heatmapPanelRef =
     (if reportDownloading then []
      else
        [SetReportDownloading True] @
        (case collectSections chartsPanelRef scatterPanelRef heatmapPanelRef of
           (es, Inl err) \<Rightarrow>
             es @ [ConsoleError err, Alert ''Failed to export the report. Please try again later.'']
         | (es, Inr secs) \<Rightarrow>
             if length secs = 0 then
               es @ [Alert ''Load at least one chart before exporting the report.'']
             else
               es @ [DownloadChartsReport
                       \<lparr>generatedAt = now, houseId = hid, disease = selectedDisease,
                        sections = secs\<rparr>]) @
        [SetReportDownloading False])"


section \<open>Timestamps: utils/formatTimestamp.ts\<close>

text \<open>
  Strings are lists of 8-bit characters. \<open>is_space\<close> is the part of the whitespace of
  \<open>String.prototype.trim\<close> and of \<open>\s\<close> that lies in that range; \<open>is_digit\<close> is \<open>\d\<close>.
\<close>

definition is_space :: "char \<Rightarrow> bool" where
  "is_space c = (c \<in> set [CHR 0x09, CHR 0x0A, CHR 0x0B, CHR 0x0C, CHR 0x0D, CHR 0x20, CHR 0xA0])"

definition is_digit :: "char \<Rightarrow> bool" where
  "is_digit c = (c \<in> set ''0123456789'')"

definition trim :: "string \<Rightarrow> string" where
  "trim s = rev (dropWhile is_space (rev (dropWhile is_space s)))"

text \<open>Decimal text of an integer (\<open>Number::toString\<close> on integers) and \<open>pad\<close>.\<close>

definition digit_char :: "nat \<Rightarrow> char" where
  "digit_char n = ''0123456789'' ! n"

fun show_nat :: "nat \<Rightarrow> string" where
  "show_nat n = (if n < 10 then [digit_char n] else show_nat (n div 10) @ [digit_char (n mod 10)])"

declare show_nat.simps [simp del]

definition show_int :: "int \<Rightarrow> string" where
  "show_int i = (if i < 0 then CHR ''-'' # show_nat (nat (- i)) else show_nat (nat i))"

definition padStart :: "nat \<Rightarrow> char \<Rightarrow> string \<Rightarrow> string" where
  "padStart n c s = replicate (n - length s) c @ s"

definition padEnd :: "nat \<Rightarrow> char \<Rightarrow> string \<Rightarrow> string" where
  "padEnd n c s = s @ replicate (n - length s) c"

definition pad :: "int \<Rightarrow> string" where
  "pad v = padStart 2 CHR ''0'' (show_int v)"

text \<open>\<open>Number.parseInt(s, 10)\<close>; \<open>None\<close> is NaN.\<close>

definition digit_val :: "char \<Rightarrow> nat" where
  "digit_val c = of_char c - 48"

definition digits_val :: "string \<Rightarrow> nat" where
  "digits_val ds = foldl (\<lambda>a c. 10 * a + digit_val c) 0 ds"

definition parseInt10 :: "string \<Rightarrow> int option" where
  "parseInt10 s =
     (let t = dropWhile is_space s;
          neg = (case t of c # _ \<Rightarrow> c = CHR ''-'' | [] \<Rightarrow> False);
          u = (case t of c # r \<Rightarrow> if c = CHR ''-'' \<or> c = CHR ''+'' then r else t | [] \<Rightarrow> t);
          ds = takeWhile is_digit u
      in if ds = [] then None
         else Some ((if neg then - 1 else 1) * int (digits_val ds)))"

record TimestampParts =
  year :: int
  month :: int
  day :: int
  hour :: int
  minute :: int
  second :: int
  millisecond :: int
  offsetMinutes :: "int option"

text \<open>The capture groups of \<open>ISOishRegex\<close>; an optional group that took no part in the
  match is \<open>None\<close> (undefined).\<close>

record iso_groups =
  yearStr :: string
  monthStr :: string
  dayStr :: string
  hourStr :: string
  minuteStr :: string
  secondStr :: "string option"
  fractionStr :: "string option"
  zoneStr :: "string option"
  signSymbol :: "string option"
  offHourStr :: "string option"
  offMinStr :: "string option"

text \<open>
  The regular expression, matched left to right. No alternative of the pattern can start
  where another one can, so the first way to match each part is the only one:
  \<^item> \<open>take_digits n\<close> is \<open>\d{n}\<close>, \<open>expect p\<close> is one character of a class;
  \<^item> \<open>match_fraction\<close> is \<open>(?:[.,](\d+))?\<close>, \<open>match_seconds\<close> is
    \<open>(?::(\d{2})(?:[.,](\d+))?)?\<close>, both returning the unmatched rest;
  \<^item> \<open>match_core\<close> is the pattern from \<open>^\<close> up to the zone group, returning the groups
    it captured and the unmatched rest;
  \<^item> \<open>match_zone\<close> is \<open>(?:\s*(Z|z|([+-])(\d{2}):?(\d{2})))?$\<close>.
\<close>

definition take_digits :: "nat \<Rightarrow> string \<Rightarrow> (string \<times> string) option" where
  "take_digits n s =
     (if n \<le> length s \<and> list_all is_digit (take n s) then Some (take n s, drop n s) else None)"

definition expect :: "(char \<Rightarrow> bool) \<Rightarrow> string \<Rightarrow> string option" where
  "expect p s = (case s of c # r \<Rightarrow> if p c then Some r else None | [] \<Rightarrow> None)"

definition match_fraction :: "string \<Rightarrow> string option \<times> string" where
  "match_fraction s =
     (case s of
        c # r \<Rightarrow>
          if (c = CHR ''.'' \<or> c = CHR '','') \<and> takeWhile is_digit r \<noteq> []
          then (Some (takeWhile is_digit r), dropWhile is_digit r)
          else (None, s)
      | [] \<Rightarrow> (None, s))"

definition match_seconds :: "string \<Rightarrow> string option \<times> string option \<times> string" where
  "match_seconds s =
     (case expect (\<lambda>c. c = CHR '':'') s of
        None \<Rightarrow> (None, None, s)
      | Some r \<Rightarrow>
          (case take_digits 2 r of
             None \<Rightarrow> (None, None, s)
           | Some (sec, r2) \<Rightarrow>
               (case match_fraction r2 of (fr, r3) \<Rightarrow> (Some sec, fr, r3))))"

text \<open>The zone groups: zoneStr, signSymbol, offHourStr, offMinStr.\<close>

type_synonym zone_groups = "string option \<times> string option \<times> string option \<times> string option"

definition match_zone :: "string \<Rightarrow> zone_groups option" where
  "match_zone s =
     (if s = [] then Some (None, None, None, None)
      else
        (case dropWhile is_space s of
           [] \<Rightarrow> None
         | c # r \<Rightarrow>
             if c = CHR ''Z'' \<or> c = CHR ''z'' then
               (if r = [] then Some (Some [c], None, None, None) else None)
             else if c = CHR ''+'' \<or> c = CHR ''-'' then
               (case take_digits 2 r of
                  None \<Rightarrow> None
                | Some (hh, r2) \<Rightarrow>
                    (let r3 = (case expect (\<lambda>c. c = CHR '':'') r2 of Some x \<Rightarrow> x | None \<Rightarrow> r2)
                     in case take_digits 2 r3 of
                          None \<Rightarrow> None
                        | Some (mm, r4) \<Rightarrow>
                            if r4 = [] then Some (Some (c # r), Some [c], Some hh, Some mm)
                            else None))
             else None))"

definition match_core :: "string \<Rightarrow> (iso_groups \<times> string) option" where
  "match_core s = do {
     (y, s1) \<leftarrow> take_digits 4 s;
     s2 \<leftarrow> expect (\<lambda>c. c = CHR ''-'') s1;
     (mo, s3) \<leftarrow> take_digits 2 s2;
     s4 \<leftarrow> expect (\<lambda>c. c = CHR ''-'') s3;
     (d, s5) \<leftarrow> take_digits 2 s4;
     s6 \<leftarrow> expect (\<lambda>c. c = CHR '' '' \<or> c = CHR ''T'') s5;
     (h, s7) \<leftarrow> take_digits 2 s6;
     s8 \<leftarrow> expect (\<lambda>c. c = CHR '':'') s7;
     (mi, s9) \<leftarrow> take_digits 2 s8;
     (sec, fr, s10) \<leftarrow> Some (match_seconds s9);
     Some (\<lparr>yearStr = y, monthStr = mo, dayStr = d, hourStr = h, minuteStr = mi,
            secondStr = sec, fractionStr = fr, zoneStr = None, signSymbol = None,
            offHourStr = None, offMinStr = None\<rparr>, s10)
   }"

definition isoMatch :: "string \<Rightarrow> iso_groups option" where
  "isoMatch s = do {
     (g, rest) \<leftarrow> match_core s;
     (z, sg, oh, om) \<leftarrow> match_zone rest;
     Some (g\<lparr>zoneStr := z, signSymbol := sg, offHourStr := oh, offMinStr := om\<rparr>)
   }"

text \<open>A rest at which the part of the pattern before the zone group cannot go on: the
  end, or a character that is not a digit, a colon, a dot or a comma.\<close>

definition core_end :: "string \<Rightarrow> bool" where
  "core_end rest = (rest = [] \<or> (\<not> is_digit (hd rest) \<and> hd rest \<notin> set '':.,''))"

text \<open>
  What the runtime's \<open>Date\<close> provides: \<open>Date.UTC\<close> of seven components, the time value
  of \<open>new Date(string)\<close> (\<open>None\<close> is an invalid date), and the local-time getters of a
  time value, which depend on the runtime's time zone.
\<close>

record date_runtime =
  Date_UTC :: "int \<Rightarrow> int \<Rightarrow> int \<Rightarrow> int \<Rightarrow> int \<Rightarrow> int \<Rightarrow> int \<Rightarrow> int"
  Date_fromString :: "string \<Rightarrow> int option"
  getFullYear :: "int \<Rightarrow> int"
  getMonth :: "int \<Rightarrow> int"
  getDate :: "int \<Rightarrow> int"
  getHours :: "int \<Rightarrow> int"
  getMinutes :: "int \<Rightarrow> int"
  getSeconds :: "int \<Rightarrow> int"
  getMilliseconds :: "int \<Rightarrow> int"

definition localParts :: "date_runtime \<Rightarrow> int \<Rightarrow> int option \<Rightarrow> TimestampParts" where
  "localParts rt t off =
     \<lparr>year = getFullYear rt t, month = getMonth rt t + 1, day = getDate rt t,
      hour = getHours rt t, minute = getMinutes rt t, second = getSeconds rt t,
      millisecond = getMilliseconds rt t, offsetMinutes = off\<rparr>"

text \<open>The \<open>offsetMinutes\<close> computed from the zone groups of a match.\<close>

definition zoneOffset :: "iso_groups \<Rightarrow> int option" where
  "zoneOffset g =
     (case zoneStr g of
        None \<Rightarrow> None
      | Some z \<Rightarrow>
          if z = [] then None
          else if z = ''Z'' \<or> z = ''z'' then Some 0
          else
            (case (str_or (signSymbol g) None, str_or (offHourStr g) None, str_or (offMinStr g) None) of
               (Some sg, Some oh, Some om) \<Rightarrow>
                 (let sign = (if sg = ''-'' then - 1 else 1)
                  in case (parseInt10 oh, parseInt10 om) of
                       (Some offHours, Some offMinutes) \<Rightarrow> Some (sign * (offHours * 60 + offMinutes))
                     | _ \<Rightarrow> None)
             | _ \<Rightarrow> None))"

text \<open>
  \<open>parseTimestampParts\<close>. \<open>None\<close> is the result null. The groups of a match are strings
  of digits, so the \<open>parseInt\<close> of the fraction cannot be NaN (its \<open>None\<close> case stands for
  nothing that happens), and four-digit years keep \<open>Date.UTC\<close> and the shifted instant
  inside the range of \<open>Date\<close>, where the getters give integers.
\<close>

definition parseTimestampParts :: "date_runtime \<Rightarrow> string option \<Rightarrow> TimestampParts option" where
  "parseTimestampParts rt raw =
     (case raw of
        None \<Rightarrow> None
      | Some r \<Rightarrow>
          if r = [] then None
          else
            (let trimmed = trim r
             in if trimmed = [] then None
                else
                  (case isoMatch trimmed of
                     Some g \<Rightarrow>
                       (let fraction = (case str_or (fractionStr g) None of
                                          Some f \<Rightarrow> take 3 f | None \<Rightarrow> ''0'');
                            off = zoneOffset g
                        in case (parseInt10 (yearStr g), parseInt10 (monthStr g), parseInt10 (dayStr g),
                                 parseInt10 (hourStr g), parseInt10 (minuteStr g),
                                 parseInt10 (case secondStr g of Some x \<Rightarrow> x | None \<Rightarrow> ''0'')) of
                             (Some y, Some mo, Some d, Some h, Some mi, Some sec) \<Rightarrow>
                               (let ms = (case parseInt10 (padEnd 3 CHR ''0'' fraction) of
                                            Some v \<Rightarrow> v | None \<Rightarrow> 0);
                                    utcMillis = Date_UTC rt y (mo - 1) d h mi sec ms;
                                    adjustedMillis =
                                      utcMillis - (case off of Some m \<Rightarrow> m | None \<Rightarrow> 0) * 60000
                                in Some (localParts rt adjustedMillis off))
                           | _ \<Rightarrow> None)
                   | None \<Rightarrow>
                       (case Date_fromString rt trimmed of
                          None \<Rightarrow> None
                        | Some t \<Rightarrow> Some (localParts rt t None)))))"

text \<open>\<open>formatTimestamp\<close>; \<open>baseText\<close> is its local \<open>base\<close>.\<close>

definition baseText :: "TimestampParts \<Rightarrow> string" where
  "baseText parts =
     show_int (year parts) @ ''-'' @ pad (month parts) @ ''-'' @ pad (day parts) @ '' '' @
     pad (hour parts) @ '':'' @ pad (minute parts) @ '':'' @ pad (second parts)"

definition formatTimestamp :: "date_runtime \<Rightarrow> string option \<Rightarrow> string option" where
  "formatTimestamp rt raw =
     (case parseTimestampParts rt raw of
        None \<Rightarrow>
          (case raw of
             None \<Rightarrow> None
           | Some r \<Rightarrow> if trim r \<noteq> [] then Some (trim r) else None)
      | Some parts \<Rightarrow>
          (case offsetMinutes parts of
             None \<Rightarrow> Some (baseText parts)
           | Some m \<Rightarrow>
               (let sign = (if 0 \<le> m then ''+'' else ''-'');
                    absMinutes = \<bar>m\<bar>;
                    offsetHours = pad (absMinutes div 60);
                    offsetRemainingMinutes = pad (absMinutes mod 60)
                in Some (baseText parts @ '' UTC'' @ sign @ offsetHours @ '':'' @ offsetRemainingMinutes))))"


section \<open>Properties of the rounding to doubles\<close>

text \<open>
  Rounding to the nearest integer with ties to even, the binary exponent, and the
  rounding \<open>round_double\<close> built from them: its relative error, its monotonicity, and
  rules that compute it on given numbers.
\<close>

lemma rne_cases:
  "rne q = \<lfloor>q\<rfloor> \<or> rne q = \<lfloor>q\<rfloor> + 1"
  by (simp add: rne_def Let_def)

lemma rne_error: "\<bar>of_int (rne q) - q\<bar> \<le> 1 / 2"
proof -
  have "of_int \<lfloor>q\<rfloor> \<le> q" "q < of_int \<lfloor>q\<rfloor> + 1" by linarith+
  then show ?thesis by (auto simp: rne_def Let_def)
qed

lemma rne_of_int [simp]: "rne (of_int n) = n"
  by (simp add: rne_def)

lemma rne_mono:
  assumes "q1 \<le> q2"
  shows "rne q1 \<le> rne q2"
proof (rule ccontr)
  assume "\<not> rne q1 \<le> rne q2"
  then have lt: "rne q2 + 1 \<le> rne q1" by simp
  then have r: "(of_int (rne q2) :: real) + 1 \<le> of_int (rne q1)" by linarith
  have e1: "\<bar>of_int (rne q1) - q1\<bar> \<le> 1 / 2" and e2: "\<bar>of_int (rne q2) - q2\<bar> \<le> 1 / 2"
    by (rule rne_error)+
  from r e1 e2 assms have "q1 = q2" by linarith
  with lt show False by simp
qed

lemma rne_le: "q \<le> of_int n \<Longrightarrow> rne q \<le> n"
  using rne_mono[of q "of_int n"] by simp

lemma rne_ge: "of_int n \<le> q \<Longrightarrow> n \<le> rne q"
  using rne_mono[of "of_int n" q] by simp

lemma rne_minus: "rne (- q) = - rne q"
proof (cases "q = of_int \<lfloor>q\<rfloor>")
  case True
  then obtain n where "q = of_int n" by blast
  then have "rne (- q) = rne (of_int (- n))" by simp
  also have "\<dots> = - n" by (rule rne_of_int)
  finally show ?thesis using \<open>q = of_int n\<close> by simp
next
  case False
  define f where "f = \<lfloor>q\<rfloor>"
  have fq: "of_int f < q" "q < of_int f + 1" using False unfolding f_def by linarith+
  have fl_neg: "\<lfloor>- q\<rfloor> = - f - 1" using fq by (intro floor_unique) simp_all
  have ev: "even (- f - 1) \<longleftrightarrow> odd f" by simp
  show ?thesis
    using fq unfolding rne_def Let_def fl_neg f_def[symmetric] ev
    by (auto simp: algebra_simps)
qed

lemma pow2_le_of_int: "2 ^ n \<le> (m::int) \<Longrightarrow> (2::real) ^ n \<le> of_int m"
proof -
  assume "2 ^ n \<le> m"
  then have "(of_int (2 ^ n) :: real) \<le> of_int m" by (simp only: of_int_le_iff)
  then show ?thesis by simp
qed

lemma of_int_succ_le_pow2: "(m::int) + 1 \<le> 2 ^ n \<Longrightarrow> (of_int m :: real) + 1 \<le> 2 ^ n"
proof -
  assume "m + 1 \<le> 2 ^ n"
  then have "(of_int (m + 1) :: real) \<le> of_int (2 ^ n)" by (simp only: of_int_le_iff)
  then show ?thesis by simp
qed

lemma powi2_less_imp_less:
  assumes "(2::real) powi a < 2 powi b"
  shows "a < b"
proof (rule ccontr)
  assume "\<not> a < b"
  then have "b \<le> a" by simp
  then have "(2::real) powi b \<le> 2 powi a" by (rule power_int_increasing) simp
  with assms show False by simp
qed

lemma ilog2_bounds:
  assumes "0 < x"
  shows "2 powi ilog2 x \<le> x" "x < 2 powi (ilog2 x + 1)"
proof -
  have "2 powi ilog2 x \<le> x \<and> x < 2 powi (ilog2 x + 1)"
  proof (cases "1 \<le> x")
    case True
    define m where "m = \<lfloor>x\<rfloor>"
    have m: "0 < m" "of_int m \<le> x" "x < of_int m + 1" using True unfolding m_def by linarith+
    have b1: "bitlen m \<ge> 1" using m(1) by (auto simp: bitlen_alt_def)
    from bitlen_bounds[OF m(1)] have bb: "2 ^ nat (bitlen m - 1) \<le> m" "m < 2 ^ nat (bitlen m)" by auto
    have k: "ilog2 x = bitlen m - 1" using True by (simp add: ilog2_def m_def)
    have p1: "(2::real) powi (bitlen m - 1) = 2 ^ nat (bitlen m - 1)"
      using b1 by (simp add: power_int_nonneg_exp)
    have p2: "(2::real) powi (bitlen m) = 2 ^ nat (bitlen m)"
      using b1 by (simp add: power_int_nonneg_exp)
    have r1: "(2::real) ^ nat (bitlen m - 1) \<le> of_int m" using bb(1) by (rule pow2_le_of_int)
    have "m + 1 \<le> 2 ^ nat (bitlen m)" using bb(2) by simp
    then have r2: "(of_int m :: real) + 1 \<le> 2 ^ nat (bitlen m)" by (rule of_int_succ_le_pow2)
    have A: "2 powi (bitlen m - 1) \<le> x" unfolding p1 using r1 m(2) by linarith
    have "x < 2 powi (bitlen m)" unfolding p2 using r2 m(3) by linarith
    then have B: "x < 2 powi (bitlen m - 1 + 1)" by simp
    show ?thesis unfolding k using A B ..
  next
    case False
    define y where "y = 1 / x"
    have y: "1 < y" using False assms by (simp add: y_def)
    define c where "c = \<lceil>y\<rceil> - 1"
    have c: "0 < c" "of_int c < y" "y \<le> of_int c + 1" using y unfolding c_def by linarith+
    have b1: "bitlen c \<ge> 1" using c(1) by (auto simp: bitlen_alt_def)
    from bitlen_bounds[OF c(1)] have bb: "2 ^ nat (bitlen c - 1) \<le> c" "c < 2 ^ nat (bitlen c)" by auto
    have k: "ilog2 x = - bitlen c" using False by (simp add: ilog2_def c_def y_def)
    have lo: "(2::real) ^ nat (bitlen c - 1) < y"
    proof -
      have "(2::real) ^ nat (bitlen c - 1) \<le> of_int c" using bb(1) by (rule pow2_le_of_int)
      with c(2) show ?thesis by linarith
    qed
    have hi: "y \<le> 2 ^ nat (bitlen c)"
    proof -
      have "c + 1 \<le> 2 ^ nat (bitlen c)" using bb(2) by simp
      then have "(of_int c :: real) + 1 \<le> 2 ^ nat (bitlen c)" by (rule of_int_succ_le_pow2)
      with c(3) show ?thesis by linarith
    qed
    have x: "x = 1 / y" using assms by (simp add: y_def)
    have p1: "(2::real) powi (- bitlen c) = 1 / 2 ^ nat (bitlen c)"
      using b1 by (simp add: power_int_minus_divide power_int_nonneg_exp)
    have p2: "(2::real) powi (- bitlen c + 1) = 1 / 2 ^ nat (bitlen c - 1)"
    proof -
      have "- bitlen c + 1 = - (bitlen c - 1)" by simp
      then show ?thesis using b1 by (simp only: power_int_minus_divide) (simp add: power_int_nonneg_exp)
    qed
    have A: "1 / 2 ^ nat (bitlen c) \<le> 1 / y" using hi y by (intro divide_left_mono) simp_all
    have B: "1 / y < 1 / 2 ^ nat (bitlen c - 1)" using lo y by (intro divide_strict_left_mono) simp_all
    have A': "2 powi (- bitlen c) \<le> x" using A by (simp only: p1 x)
    have B': "x < 2 powi (- bitlen c + 1)" using B by (simp only: p2 x)
    show ?thesis unfolding k using A' B' ..
  qed
  then show "2 powi ilog2 x \<le> x" "x < 2 powi (ilog2 x + 1)" by simp_all
qed

lemma ilog2_unique:
  assumes "2 powi k \<le> x" "x < 2 powi (k + 1)"
  shows "ilog2 x = k"
proof -
  have "0 < (2::real) powi k" by simp
  with assms(1) have pos: "0 < x" by linarith
  note b = ilog2_bounds[OF pos]
  have "(2::real) powi k < 2 powi (ilog2 x + 1)" using assms(1) b(2) by linarith
  then have 1: "k < ilog2 x + 1" by (rule powi2_less_imp_less)
  have "(2::real) powi ilog2 x < 2 powi (k + 1)" using assms(2) b(1) by linarith
  then have 2: "ilog2 x < k + 1" by (rule powi2_less_imp_less)
  from 1 2 show ?thesis by simp
qed

lemma ilog2_mono:
  assumes "0 < x" "x \<le> y"
  shows "ilog2 x \<le> ilog2 y"
proof -
  have "0 < y" using assms by simp
  note bx = ilog2_bounds[OF assms(1)] and by' = ilog2_bounds[OF \<open>0 < y\<close>]
  have "(2::real) powi ilog2 x < 2 powi (ilog2 y + 1)" using bx(1) by'(2) assms(2) by linarith
  then have "ilog2 x < ilog2 y + 1" by (rule powi2_less_imp_less)
  then show ?thesis by simp
qed

lemma ulp_exp_minus [simp]: "ulp_exp (- x) = ulp_exp x"
  by (simp add: ulp_exp_def)

lemma ulp_exp_mono: "x \<noteq> 0 \<Longrightarrow> \<bar>x\<bar> \<le> \<bar>y\<bar> \<Longrightarrow> ulp_exp x \<le> ulp_exp y"
  using ilog2_mono[of "\<bar>x\<bar>" "\<bar>y\<bar>"] by (simp add: ulp_exp_def)

lemma rne_0 [simp]: "rne 0 = 0"
  using rne_of_int[of 0] by simp

lemma round_double_0 [simp]: "round_double 0 = 0"
  by (simp add: round_double_def)

lemma round_double_minus: "round_double (- x) = - round_double x"
  by (simp add: round_double_def rne_minus)

lemma round_double_grid:
  "round_double x = of_int (rne (x / 2 powi ulp_exp x)) * 2 powi ulp_exp x"
  by (simp add: round_double_def)

lemma round_double_half_ulp: "\<bar>round_double x - x\<bar> \<le> 2 powi ulp_exp x / 2"
proof -
  define g :: real where "g = 2 powi ulp_exp x"
  have g: "0 < g" by (simp add: g_def)
  define q where "q = x / g"
  have x: "x = q * g" using g by (simp add: q_def)
  have "round_double x = of_int (rne q) * g"
    unfolding round_double_grid g_def[symmetric] q_def[symmetric] ..
  then have "round_double x - x = of_int (rne q) * g - q * g" using x by simp
  then have "round_double x - x = (of_int (rne q) - q) * g" by (simp add: algebra_simps)
  then have "\<bar>round_double x - x\<bar> = \<bar>of_int (rne q) - q\<bar> * g" using g by (simp add: abs_mult)
  also have "\<dots> \<le> 1 / 2 * g" using rne_error[of q] g by (intro mult_right_mono) simp_all
  finally show ?thesis by (simp add: g_def)
qed

lemma half_ulp_bound:
  assumes "x \<noteq> 0"
  shows "2 powi ulp_exp x / 2 \<le> \<bar>x\<bar> / 2 ^ 53 + 1 / 2 ^ 1075"
proof -
  from assms have pos: "0 < \<bar>x\<bar>" by simp
  define k where "k = ilog2 \<bar>x\<bar>"
  define a :: real where "a = 2 powi (k - 52)"
  define b :: real where "b = 2 powi (- 1074)"
  have ab: "0 < a" "0 < b" by (simp_all add: a_def b_def)
  have kx: "2 powi k \<le> \<bar>x\<bar>" unfolding k_def using pos by (rule ilog2_bounds)
  have "a = 2 powi k / 2 powi 52" unfolding a_def by (rule power_int_diff) simp
  then have a2: "a * 2 ^ 52 = 2 powi k" by simp
  have "2 powi (- 1074) = 1 / (2::real) powi 1074" by (rule power_int_minus_divide)
  then have b2: "b = 1 / 2 ^ 1074" unfolding b_def by simp
  have "ulp_exp x = k - 52 \<or> ulp_exp x = - 1074" by (auto simp: ulp_exp_def k_def max_def)
  then have "(2::real) powi ulp_exp x = a \<or> (2::real) powi ulp_exp x = b" unfolding a_def b_def by auto
  then have 1: "2 powi ulp_exp x \<le> a + b" using ab by auto
  have 2: "a \<le> \<bar>x\<bar> / 2 ^ 52"
  proof -
    have "a * 2 ^ 52 \<le> \<bar>x\<bar>" unfolding a2 by (rule kx)
    then show ?thesis by (simp add: pos_le_divide_eq)
  qed
  have 3: "\<bar>x\<bar> / 2 ^ 52 / 2 = \<bar>x\<bar> / 2 ^ 53" by simp
  have 4: "b / 2 = 1 / 2 ^ 1075" unfolding b2 by simp
  have "2 powi ulp_exp x / 2 \<le> (a + b) / 2" using 1 by simp
  also have "\<dots> \<le> (\<bar>x\<bar> / 2 ^ 52 + b) / 2" using 2 by simp
  also have "\<dots> = \<bar>x\<bar> / 2 ^ 53 + 1 / 2 ^ 1075" unfolding add_divide_distrib 3 4 ..
  finally show ?thesis .
qed

lemma round_double_error: "\<bar>round_double x - x\<bar> \<le> \<bar>x\<bar> / 2 ^ 53 + 1 / 2 ^ 1075"
proof (cases "x = 0")
  case True
  then show ?thesis by simp
next
  case False
  then show ?thesis using round_double_half_ulp[of x] half_ulp_bound[of x] by linarith
qed

lemma round_double_nonneg: "0 \<le> x \<Longrightarrow> 0 \<le> round_double x"
proof -
  assume "0 \<le> x"
  then have "of_int 0 \<le> x / 2 powi ulp_exp x" by simp
  then have "0 \<le> rne (x / 2 powi ulp_exp x)" by (rule rne_ge)
  then show ?thesis by (simp add: round_double_grid)
qed

lemma round_double_mono_pos:
  assumes "0 < x" "x \<le> y"
  shows "round_double x \<le> round_double y"
proof -
  have ypos: "0 < y" using assms by simp
  define ex where "ex = ulp_exp x"
  define ey where "ey = ulp_exp y"
  have le: "ex \<le> ey" unfolding ex_def ey_def using assms by (intro ulp_exp_mono) simp_all
  show ?thesis
  proof (cases "ex = ey")
    case True
    have "x / 2 powi ex \<le> y / 2 powi ex" using assms(2) by (simp add: divide_right_mono)
    then have "rne (x / 2 powi ex) \<le> rne (y / 2 powi ex)" by (rule rne_mono)
    then have "(of_int (rne (x / 2 powi ex)) :: real) * 2 powi ex \<le> of_int (rne (y / 2 powi ex)) * 2 powi ex"
      by (intro mult_right_mono) simp_all
    then show ?thesis unfolding round_double_grid[of x] round_double_grid[of y] ex_def[symmetric] ey_def[symmetric] True[symmetric] .
  next
    case False
    with le have lt: "ex < ey" by simp
    define kx where "kx = ilog2 x"
    define ky where "ky = ilog2 y"
    have exd: "ex = max (kx - 52) (- 1074)" using assms(1) by (simp add: ex_def ulp_exp_def kx_def)
    have eyd: "ey = max (ky - 52) (- 1074)" using ypos by (simp add: ey_def ulp_exp_def ky_def)
    have ey: "ey = ky - 52" using lt exd eyd by linarith
    have kk: "kx + 1 \<le> ky" using lt exd ey by linarith
    have xb: "x < 2 powi (kx + 1)" unfolding kx_def using assms(1) by (rule ilog2_bounds)
    have yb: "2 powi ky \<le> y" unfolding ky_def using ypos by (rule ilog2_bounds)
    have "(2::real) powi (kx + 1) \<le> 2 powi ky" using kk by (rule power_int_increasing) simp
    with xb have xk: "x < 2 powi ky" by linarith
    \<comment> \<open>the rounded x stays at or below the power of two\<close>
    define d where "d = nat (ky - ex)"
    have dpos: "0 \<le> ky - ex" using lt ey by simp
    have dN: "(2::real) powi (ky - ex) = of_int (2 ^ d)" using dpos by (simp add: d_def power_int_nonneg_exp)
    have "x / 2 powi ex \<le> 2 powi ky / 2 powi ex" using xk by (simp add: divide_right_mono)
    also have "\<dots> = 2 powi (ky - ex)" by (subst power_int_diff) simp_all
    finally have "x / 2 powi ex \<le> of_int (2 ^ d)" unfolding dN .
    then have "rne (x / 2 powi ex) \<le> 2 ^ d" by (rule rne_le)
    then have "(of_int (rne (x / 2 powi ex)) :: real) \<le> of_int (2 ^ d)" by (simp only: of_int_le_iff)
    then have "(of_int (rne (x / 2 powi ex)) :: real) * 2 powi ex \<le> of_int (2 ^ d) * 2 powi ex"
      by (intro mult_right_mono) simp_all
    also have "\<dots> = 2 powi (ky - ex) * 2 powi ex" unfolding dN ..
    also have "\<dots> = 2 powi ky" by (subst power_int_add[symmetric]) simp_all
    finally have up: "round_double x \<le> 2 powi ky" unfolding round_double_grid[of x] ex_def[symmetric] .
    \<comment> \<open>the rounded y stays at or above it\<close>
    define M :: int where "M = 2 ^ 52"
    have "ky - ey = 52" unfolding ey by simp
    then have e52: "(2::real) powi (ky - ey) = of_int M" unfolding M_def by simp
    have "2 powi ky / 2 powi ey \<le> y / 2 powi ey" using yb by (simp add: divide_right_mono)
    moreover have "(2::real) powi ky / 2 powi ey = 2 powi (ky - ey)" by (rule power_int_diff[symmetric]) simp
    ultimately have "of_int M \<le> y / 2 powi ey" unfolding e52[symmetric] by simp
    then have "M \<le> rne (y / 2 powi ey)" by (rule rne_ge)
    then have "(of_int M :: real) \<le> of_int (rne (y / 2 powi ey))" by (simp only: of_int_le_iff)
    then have "(of_int M :: real) * 2 powi ey \<le> of_int (rne (y / 2 powi ey)) * 2 powi ey"
      by (intro mult_right_mono) simp_all
    moreover have "(of_int M :: real) * 2 powi ey = 2 powi ky"
      unfolding e52[symmetric] by (subst power_int_add[symmetric]) simp_all
    ultimately have lo: "2 powi ky \<le> round_double y"
      unfolding round_double_grid[of y] ey_def[symmetric] by (simp only:)
    from up lo show ?thesis by linarith
  qed
qed

lemma round_double_mono:
  assumes "x \<le> y"
  shows "round_double x \<le> round_double y"
proof -
  consider "0 < x" | "x \<le> 0" "0 \<le> y" | "y < 0" by linarith
  then show ?thesis
  proof cases
    case 1
    then show ?thesis using assms by (rule round_double_mono_pos)
  next
    case 2
    have "0 \<le> round_double (- x)" using 2(1) by (intro round_double_nonneg) simp
    then have "round_double x \<le> 0" by (simp add: round_double_minus)
    moreover have "0 \<le> round_double y" using 2(2) by (rule round_double_nonneg)
    ultimately show ?thesis by linarith
  next
    case 3
    have "round_double (- y) \<le> round_double (- x)" using 3 assms by (intro round_double_mono_pos) simp_all
    then show ?thesis by (simp add: round_double_minus)
  qed
qed

lemma fl_finite: "\<bar>round_double x\<bar> < 2 ^ 1024 \<Longrightarrow> fl x = Fin (round_double x)"
  by (simp add: fl_def Let_def)

lemma round_double_below_overflow:
  assumes "\<bar>x\<bar> \<le> 2 ^ 1023"
  shows "\<bar>round_double x\<bar> < 2 ^ 1024"
proof -
  define B :: real where "B = 2 ^ 1023"
  have B: "1 \<le> B" "2 ^ 1024 = 2 * B" by (simp_all add: B_def)
  have e: "\<bar>round_double x - x\<bar> \<le> \<bar>x\<bar> / 2 ^ 53 + 1 / 2 ^ 1075" by (rule round_double_error)
  have "\<bar>x\<bar> / 2 ^ 53 \<le> \<bar>x\<bar> / 2" by (intro divide_left_mono) simp_all
  moreover have "(1::real) / 2 ^ 1075 \<le> 1 / 4" by (intro divide_left_mono) simp_all
  ultimately have "\<bar>round_double x\<bar> \<le> \<bar>x\<bar> + \<bar>x\<bar> / 2 + 1 / 4" using e by linarith
  also have "\<dots> < 2 * B" using assms B(1) unfolding B_def[symmetric] by linarith
  finally show ?thesis unfolding B(2) .
qed

lemma fl_in_range: "\<bar>x\<bar> \<le> 2 ^ 1023 \<Longrightarrow> fl x = Fin (round_double x)"
  by (intro fl_finite round_double_below_overflow)

lemma is_double_round: "is_double x \<Longrightarrow> round_double x = x"
  by (auto simp: is_double_def fl_def Let_def split: if_splits)

lemma is_double_0 [simp]: "is_double 0"
  by (simp add: is_double_def fl_def)

lemma round_double_nonpos: "x \<le> 0 \<Longrightarrow> round_double x \<le> 0"
  using round_double_nonneg[of "- x"] by (simp add: round_double_minus)

lemma round_double_le_double: "x \<le> d \<Longrightarrow> is_double d \<Longrightarrow> round_double x \<le> d"
  using round_double_mono[of x d] by (simp add: is_double_round)

lemma round_double_ge_double: "d \<le> x \<Longrightarrow> is_double d \<Longrightarrow> d \<le> round_double x"
  using round_double_mono[of d x] by (simp add: is_double_round)


lemma rne_eqI:
  assumes "\<bar>q - of_int m\<bar> < 1 / 2"
  shows "rne q = m"
proof -
  have "\<bar>of_int (rne q) - q\<bar> \<le> 1 / 2" by (rule rne_error)
  with assms have "\<bar>(of_int (rne q) :: real) - of_int m\<bar> < 1" by linarith
  then have "\<bar>(of_int (rne q - m) :: real)\<bar> < 1" by simp
  then have "\<bar>rne q - m\<bar> < 1" by (simp only: of_int_abs [symmetric] of_int_less_1_iff)
  then show ?thesis by linarith
qed

lemma round_double_eqI:
  assumes "2 powi e \<le> \<bar>x\<bar>" "\<bar>x\<bar> < 2 powi (e + 1)" "u = max (e - 52) (- 1074)"
    and "\<bar>x / 2 powi u - of_int m\<bar> < 1 / 2" "y = of_int m * 2 powi u"
  shows "round_double x = y"
proof -
  have "ilog2 \<bar>x\<bar> = e" using assms(1,2) by (rule ilog2_unique)
  then have u: "ulp_exp x = u" by (simp add: ulp_exp_def assms(3))
  have "rne (x / 2 powi u) = m" using assms(4) by (rule rne_eqI)
  then show ?thesis unfolding round_double_grid u assms(5) by simp
qed

lemma small_below_overflow: "\<bar>x::real\<bar> \<le> 2 ^ 64 \<Longrightarrow> \<bar>x\<bar> \<le> 2 ^ 1023"
proof -
  assume "\<bar>x\<bar> \<le> 2 ^ 64"
  moreover have "(2::real) ^ 64 \<le> 2 ^ 1023" by (rule power_increasing) simp_all
  ultimately show ?thesis by linarith
qed

lemma fl_small: "\<bar>x\<bar> \<le> 2 ^ 64 \<Longrightarrow> fl x = Fin (round_double x)"
  by (rule fl_in_range) (rule small_below_overflow)

lemma fl_eqI:
  assumes "2 powi e \<le> \<bar>x\<bar>" "\<bar>x\<bar> < 2 powi (e + 1)" "u = max (e - 52) (- 1074)"
    and "\<bar>x / 2 powi u - of_int m\<bar> < 1 / 2" "y = of_int m * 2 powi u" "\<bar>x\<bar> \<le> 2 ^ 64"
  shows "fl x = Fin y"
  using round_double_eqI[OF assms(1-5)] fl_small[OF assms(6)] by simp

lemma is_double_consts: "is_double 120" "is_double 65" "is_double 20" "is_double 45" "is_double 1"
  unfolding is_double_def
      apply (rule fl_eqI[where e = 6 and u = "- 46" and m = "120 * 2 ^ 46"]; simp)
     apply (rule fl_eqI[where e = 6 and u = "- 46" and m = "65 * 2 ^ 46"]; simp)
    apply (rule fl_eqI[where e = 4 and u = "- 48" and m = "20 * 2 ^ 48"]; simp)
   apply (rule fl_eqI[where e = 5 and u = "- 47" and m = "45 * 2 ^ 47"]; simp)
  apply (rule fl_eqI[where e = 0 and u = "- 52" and m = "2 ^ 52"]; simp)
  done

lemma fl_tenth: "fl (1 / 10) = Fin (3602879701896397 / 2 ^ 55)"
  by (rule fl_eqI[where e = "- 4" and u = "- 56" and m = 7205759403792794]; simp)

lemma fl_twentieth: "fl (5 / 100) = Fin (3602879701896397 / 2 ^ 56)"
  by (rule fl_eqI[where e = "- 5" and u = "- 57" and m = 7205759403792794]; simp)

lemma fl_big: "fl (10 ^ 17 - 1) = Fin (10 ^ 17)" "fl (10 ^ 17 + 1) = Fin (10 ^ 17)"
   apply (rule fl_eqI[where e = 56 and u = 4 and m = 6250000000000000]; simp)
  apply (rule fl_eqI[where e = 56 and u = 4 and m = 6250000000000000]; simp)
  done


lemma fl_double: "is_double x \<Longrightarrow> fl x = Fin x"
  by (simp add: is_double_def)

lemma fl_0 [simp]: "fl 0 = Fin 0"
  using is_double_0 by (simp only: is_double_def)


lemma is_double_iff: "is_double x \<longleftrightarrow> round_double x = x \<and> \<bar>x\<bar> < 2 ^ 1024"
  by (auto simp: is_double_def fl_def Let_def)

lemma is_double_minus: "is_double x \<Longrightarrow> is_double (- x)"
  by (simp add: is_double_iff round_double_minus)

lemma is_double_abs: "is_double x \<Longrightarrow> is_double \<bar>x\<bar>"
  by (cases "0 \<le> x") (simp_all add: is_double_minus abs_if)

lemma round_double_error_le:
  assumes "\<bar>x\<bar> \<le> X"
  shows "\<bar>round_double x - x\<bar> \<le> X / 2 ^ 53 + 1 / 2 ^ 1075"
proof -
  have "\<bar>x\<bar> / 2 ^ 53 \<le> X / 2 ^ 53" using assms by (rule divide_right_mono) simp
  with round_double_error[of x] show ?thesis by linarith
qed

lemma round_double_tenth: "round_double (1 / 10) = 3602879701896397 / 2 ^ 55"
  by (rule round_double_eqI[where e = "- 4" and u = "- 56" and m = 7205759403792794]; simp)

lemma round_double_twentieth: "round_double (1 / 20) = 3602879701896397 / 2 ^ 56"
  by (rule round_double_eqI[where e = "- 5" and u = "- 57" and m = 7205759403792794]; simp)

lemma is_double_tenth: "is_double (round_double (1 / 10))"
  unfolding round_double_tenth is_double_def
  by (rule fl_eqI[where e = "- 4" and u = "- 56" and m = 7205759403792794]; simp)

lemma tenth_bounds:
  "0 \<le> round_double (1 / 10)" "round_double (1 / 10) \<le> 1 / 8"
  "\<bar>round_double (1 / 10) - 1 / 10\<bar> \<le> 1 / 2 ^ 53"
  by (simp_all add: round_double_tenth)

lemma twentieth_bounds:
  "0 \<le> round_double (1 / 20)" "round_double (1 / 20) \<le> 1 / 16"
  "\<bar>round_double (1 / 20) - 1 / 20\<bar> \<le> 1 / 2 ^ 53"
  by (simp_all add: round_double_twentieth)

lemma js_lit_tenth: "js_lit (1 / 10) = Fin (round_double (1 / 10))"
  by (simp add: js_lit_def fl_tenth round_double_tenth)

lemma js_lit_twentieth: "js_lit (1 / 20) = Fin (round_double (1 / 20))"
  using fl_twentieth by (simp add: js_lit_def round_double_twentieth)


lemma shrink_53: "0 \<le> (y::real) \<Longrightarrow> y / 2 ^ 53 \<le> y"
proof -
  assume y: "0 \<le> y"
  have "(1::real) \<le> 2 ^ 53" by (rule one_le_power) simp
  then have "y / 2 ^ 53 \<le> y / 1" using y by (intro divide_left_mono) simp_all
  then show ?thesis by simp
qed

lemma shrink_53_64: "0 \<le> (y::real) \<Longrightarrow> y / 2 ^ 53 \<le> y / 64"
proof -
  assume y: "0 \<le> y"
  have "(2::real) ^ 6 \<le> 2 ^ 53" by (rule power_increasing) simp_all
  then have "(64::real) \<le> 2 ^ 53" by simp
  then show ?thesis using y by (intro divide_left_mono) simp_all
qed

lemma tiny_le_1: "(1::real) / 2 ^ 1075 \<le> 1"
proof -
  have "(1::real) \<le> 2 ^ 1075" by (rule one_le_power) simp
  then show ?thesis by (simp only: divide_le_eq_1_pos zero_less_power zero_less_numeral)
qed

lemma sixteen_le_big: "(16::real) \<le> 2 ^ 1022"
proof -
  have "(2::real) ^ 4 \<le> 2 ^ 1022" by (rule power_increasing) simp_all
  moreover have "(2::real) ^ 4 = 16" by simp
  ultimately show ?thesis by (simp only:)
qed

lemma big_double: "(2::real) * 2 ^ 1022 = 2 ^ 1023"
proof -
  have "(2::real) ^ Suc 1022 = 2 * 2 ^ 1022" by (rule power_Suc)
  moreover have "Suc 1022 = 1023" by simp
  ultimately show ?thesis by (simp only:)
qed


section \<open>Properties of the heatmap cells\<close>

lemma clampRisk_cases:
  "clampRisk x =
     (case x of None \<Rightarrow> None | Some NaN \<Rightarrow> None | Some NegInf \<Rightarrow> Some (Fin 0)
      | Some PosInf \<Rightarrow> Some (Fin 1)
      | Some (Fin r) \<Rightarrow> Some (Fin (if r < 0 then 0 else if 1 < r then 1 else r)))"
  by (simp add: clampRisk_def js_gt_def split: option.splits jsnum.splits)

lemma clampRisk_None_iff: "clampRisk x = None \<longleftrightarrow> x = None \<or> x = Some NaN"
  by (simp add: clampRisk_cases split: option.splits jsnum.splits)

lemma clampRisk_Some_range:
  assumes "clampRisk x = Some c"
  obtains r where "c = Fin r" "0 \<le> r" "r \<le> 1"
  using assms by (auto simp: clampRisk_cases split: option.splits jsnum.splits if_splits)

lemma canvasCell_unfold:
  "canvasCell str toFixed row i =
     (if \<not> has_sensor row then (NO_SENSOR_COLOR, None)
      else if \<not> enabled row then (DISABLED_COLOR, None)
      else if js_index (row_values row) i = None \<or> clampRisk (js_index (row_risk row) i) = None
        then (NO_DATA_COLOR, None)
      else (colorForRisk str (the (clampRisk (js_index (row_risk row) i))),
            Some (toFixed 1 (the (js_index (row_values row) i)))))"
  by (auto simp: canvasCell_def Let_def split: option.splits)

lemma renderCell_agrees:
  assumes "rowIndex < length (rows d)"
  shows "\<exists>cv. renderCell str toFixed (Some d) rowIndex i = Inr (Some cv) \<and>
              (backgroundColor cv, value_text (content cv)) = canvasCell str toFixed (rows d ! rowIndex) i"
  using assms by (auto simp: renderCell_def canvasCell_def Let_def split: option.splits)

text \<open>
  Claim C1. For every row and column index the canvas renderer resolves the fill colour
  and the optional text of the cell by four cases, tried in this order: no sensor (the
  fixed colour \<open>NO_SENSOR_COLOR\<close>, no text, whatever \<open>enabled\<close>, the value and the risk
  are); sensor disabled (\<open>DISABLED_COLOR\<close>, no text); value null or clamped risk null
  (\<open>NO_DATA_COLOR\<close>, no text); otherwise \<open>colorForRisk\<close> of the clamped risk, and the value
  formatted by \<open>toFixed(1)\<close>. The interactive \<open>renderCell\<close> goes through the same cases: its
  background is the canvas fill, and it shows the value text exactly when the canvas
  cell has one (in the three status cases it shows a caption instead of a value).
\<close>

theorem heatmap_cell_precedence:
  "canvasCell str toFixed row i =
     (if \<not> has_sensor row then (NO_SENSOR_COLOR, None)
      else if \<not> enabled row then (DISABLED_COLOR, None)
      else if js_index (row_values row) i = None \<or> clampRisk (js_index (row_risk row) i) = None
        then (NO_DATA_COLOR, None)
      else (colorForRisk str (the (clampRisk (js_index (row_risk row) i))),
            Some (toFixed 1 (the (js_index (row_values row) i))))) \<and>
   (rowIndex < length (rows d) \<and> rows d ! rowIndex = row \<longrightarrow>
      (\<exists>cv. renderCell str toFixed (Some d) rowIndex i = Inr (Some cv) \<and>
            backgroundColor cv = fst (canvasCell str toFixed row i) \<and>
            value_text (content cv) = snd (canvasCell str toFixed row i)))"
proof (intro conjI impI)
  show "canvasCell str toFixed row i =
     (if \<not> has_sensor row then (NO_SENSOR_COLOR, None)
      else if \<not> enabled row then (DISABLED_COLOR, None)
      else if js_index (row_values row) i = None \<or> clampRisk (js_index (row_risk row) i) = None
        then (NO_DATA_COLOR, None)
      else (colorForRisk str (the (clampRisk (js_index (row_risk row) i))),
            Some (toFixed 1 (the (js_index (row_values row) i)))))"
    by (rule canvasCell_unfold)
next
  assume a: "rowIndex < length (rows d) \<and> rows d ! rowIndex = row"
  then obtain cv where cv: "renderCell str toFixed (Some d) rowIndex i = Inr (Some cv)"
    "(backgroundColor cv, value_text (content cv)) = canvasCell str toFixed row i"
    using renderCell_agrees[of rowIndex d str toFixed i] by auto
  from cv(2) have "backgroundColor cv = fst (canvasCell str toFixed row i)"
    "value_text (content cv) = snd (canvasCell str toFixed row i)"
    by (metis fst_conv, metis snd_conv)
  with cv(1) show "\<exists>cv. renderCell str toFixed (Some d) rowIndex i = Inr (Some cv) \<and>
            backgroundColor cv = fst (canvasCell str toFixed row i) \<and>
            value_text (content cv) = snd (canvasCell str toFixed row i)" by blast
qed

theorem heatmap_cell_precedence_witness:
  "canvasCell (\<lambda>_. []) (\<lambda>_ _. []) 
      \<lparr>row_values = [Some (Fin 400)], row_risk = [Some (Fin 0.1)], enabled = True, has_sensor = False\<rparr> 0
     = (NO_SENSOR_COLOR, None) \<and>
   (\<exists>cv. renderCell (\<lambda>_. []) (\<lambda>_ _. [])
       (Some \<lparr>labels = [''2024-01-01T00:00:00Z''],
               rows = [\<lparr>row_values = [Some (Fin 400)], row_risk = [Some (Fin 0.1)], enabled = True, has_sensor = False\<rparr>]\<rparr>) 0 0
         = Inr (Some cv) \<and> backgroundColor cv = NO_SENSOR_COLOR \<and> value_text (content cv) = None)"
  using heatmap_cell_precedence[of "\<lambda>_. []" "\<lambda>_ _. []"
      "\<lparr>row_values = [Some (Fin 400)], row_risk = [Some (Fin 0.1)], enabled = True, has_sensor = False\<rparr>" 0 0
      "\<lparr>labels = [''2024-01-01T00:00:00Z''],
               rows = [\<lparr>row_values = [Some (Fin 400)], row_risk = [Some (Fin 0.1)], enabled = True, has_sensor = False\<rparr>]\<rparr>"]
  by auto

text \<open>
  Claim C10. \<open>clampRisk\<close> returns null exactly for null, undefined and NaN; for any other
  argument it returns a number in \<open>[0, 1]\<close>: 0 for an argument below 0, 1 for one above 1,
  the argument itself otherwise. Hence a cell of a row with \<open>has_sensor\<close> and \<open>enabled\<close>,
  a value that is not null and a NaN risk is drawn in the "no data" colour without
  value text by the canvas renderer, and as the "No data" cell by \<open>renderCell\<close>.
\<close>

theorem clampRisk_null_and_nan_cell:
  "(clampRisk x = None \<longleftrightarrow> x = None \<or> x = Some NaN) \<and>
   (\<forall>n. x = Some n \<and> n \<noteq> NaN \<longrightarrow>
      (\<exists>r. clampRisk x = Some (Fin r) \<and> 0 \<le> r \<and> r \<le> 1 \<and>
           (js_lt n (Fin 0) \<longrightarrow> r = 0) \<and>
           (js_gt n (Fin 1) \<longrightarrow> r = 1) \<and>
           (\<not> js_lt n (Fin 0) \<and> \<not> js_gt n (Fin 1) \<longrightarrow> n = Fin r))) \<and>
   (has_sensor row \<and> enabled row \<and> js_index (row_values row) i = Some v \<and>
    js_index (row_risk row) i = Some NaN \<longrightarrow>
      canvasCell str toFixed row i = (NO_DATA_COLOR, None) \<and>
      (rowIndex < length (rows d) \<and> rows d ! rowIndex = row \<longrightarrow>
         (\<exists>cv. renderCell str toFixed (Some d) rowIndex i = Inr (Some cv) \<and>
               backgroundColor cv = NO_DATA_COLOR \<and> content cv = Caption ''No data'')))"
proof (intro conjI allI impI)
  show "(clampRisk x = None) = (x = None \<or> x = Some NaN)" by (rule clampRisk_None_iff)
next
  fix n assume "x = Some n \<and> n \<noteq> NaN"
  then show "\<exists>r. clampRisk x = Some (Fin r) \<and> 0 \<le> r \<and> r \<le> 1 \<and>
           (js_lt n (Fin 0) \<longrightarrow> r = 0) \<and>
           (js_gt n (Fin 1) \<longrightarrow> r = 1) \<and>
           (\<not> js_lt n (Fin 0) \<and> \<not> js_gt n (Fin 1) \<longrightarrow> n = Fin r)"
    by (cases n) (auto simp: clampRisk_cases js_gt_def)
next
  assume a: "has_sensor row \<and> enabled row \<and> js_index (row_values row) i = Some v \<and>
    js_index (row_risk row) i = Some NaN"
  then show "canvasCell str toFixed row i = (NO_DATA_COLOR, None)"
    by (simp add: canvasCell_def clampRisk_def)
  assume "rowIndex < length (rows d) \<and> rows d ! rowIndex = row"
  with a show "\<exists>cv. renderCell str toFixed (Some d) rowIndex i = Inr (Some cv) \<and>
               backgroundColor cv = NO_DATA_COLOR \<and> content cv = Caption ''No data''"
    by (simp add: renderCell_def clampRisk_def)
qed

theorem clampRisk_null_and_nan_cell_witness:
  "clampRisk (Some (Fin 2)) = Some (Fin 1) \<and>
   canvasCell (\<lambda>_. []) (\<lambda>_ _. [])
      \<lparr>row_values = [Some (Fin 400)], row_risk = [Some NaN], enabled = True, has_sensor = True\<rparr> 0
     = (NO_DATA_COLOR, None) \<and>
   (\<exists>cv. renderCell (\<lambda>_. []) (\<lambda>_ _. [])
       (Some \<lparr>labels = [''2024-01-01T00:00:00Z''],
               rows = [\<lparr>row_values = [Some (Fin 400)], row_risk = [Some NaN], enabled = True, has_sensor = True\<rparr>]\<rparr>) 0 0
         = Inr (Some cv) \<and> backgroundColor cv = NO_DATA_COLOR \<and> content cv = Caption ''No data'')"
  using clampRisk_null_and_nan_cell[of "Some (Fin 2)"
      "\<lparr>row_values = [Some (Fin 400)], row_risk = [Some NaN], enabled = True, has_sensor = True\<rparr>" 0 "Fin 400"
      "\<lambda>_. []" "\<lambda>_ _. []" 0
      "\<lparr>labels = [''2024-01-01T00:00:00Z''],
               rows = [\<lparr>row_values = [Some (Fin 400)], row_risk = [Some NaN], enabled = True, has_sensor = True\<rparr>]\<rparr>"]
  by (simp add: js_index_def js_gt_def)

subsection \<open>The colour of a risk\<close>

lemma le_1000_small: "\<bar>x::real\<bar> \<le> 1000 \<Longrightarrow> \<bar>x\<bar> \<le> 2 ^ 64"
proof -
  assume "\<bar>x\<bar> \<le> 1000"
  moreover have "(1000::real) \<le> 2 ^ 64" by simp
  ultimately show ?thesis by linarith
qed

lemma scaled_risk:
  assumes "0 \<le> r" "r \<le> 1" "0 \<le> k" "k \<le> 1000" "is_double k"
  shows "js_mul (Fin r) (Fin k) = Fin (round_double (r * k))"
    and "0 \<le> round_double (r * k)" and "round_double (r * k) \<le> k"
proof -
  have rk: "0 \<le> r * k" "r * k \<le> k" using assms by (simp_all add: mult_left_le_one_le)
  then have "\<bar>r * k\<bar> \<le> 1000" using assms(4) by linarith
  then show "js_mul (Fin r) (Fin k) = Fin (round_double (r * k))"
    by (simp add: fl_small le_1000_small)
  show "0 \<le> round_double (r * k)" using rk(1) by (rule round_double_nonneg)
  show "round_double (r * k) \<le> k" using rk(2) assms(5) by (rule round_double_le_double)
qed

lemma offset_minus:
  assumes "0 \<le> p" "p \<le> k" "k \<le> c" "c \<le> 1000" "is_double c" "is_double (c - k)"
  shows "js_sub (Fin c) (Fin p) = Fin (round_double (c - p))"
    and "c - k \<le> round_double (c - p)" and "round_double (c - p) \<le> c"
proof -
  have "\<bar>c - p\<bar> \<le> 1000" using assms by linarith
  then show "js_sub (Fin c) (Fin p) = Fin (round_double (c - p))"
    by (simp add: js_sub_def fl_small le_1000_small)
  have "c - k \<le> c - p" using assms by linarith
  then show "c - k \<le> round_double (c - p)" using assms(6) by (rule round_double_ge_double)
  have "c - p \<le> c" using assms by linarith
  then show "round_double (c - p) \<le> c" using assms(5) by (rule round_double_le_double)
qed

lemma hueForRisk_Fin:
  assumes "0 \<le> r" "r \<le> 1"
  shows "hueForRisk (Fin r) = Fin (round_double (120 - round_double (r * 120)))"
    and "0 \<le> round_double (120 - round_double (r * 120))"
    and "round_double (120 - round_double (r * 120)) \<le> 120"
proof -
  have k: "(0::real) \<le> 120" "(120::real) \<le> 1000" "(120::real) \<le> 120" by simp_all
  have z: "is_double (120 - 120)" by simp
  note m = scaled_risk[OF assms k(1) k(2) is_double_consts(1)]
  note s = offset_minus[OF m(2) m(3) k(3) k(2) is_double_consts(1) z]
  show "hueForRisk (Fin r) = Fin (round_double (120 - round_double (r * 120)))"
    unfolding hueForRisk_def m(1) by (rule s(1))
  show "0 \<le> round_double (120 - round_double (r * 120))" using s(2) by simp
  show "round_double (120 - round_double (r * 120)) \<le> 120" by (rule s(3))
qed

lemma lightnessForRisk_Fin:
  assumes "0 \<le> r" "r \<le> 1"
  shows "lightnessForRisk (Fin r) = Fin (round_double (65 - round_double (r * 20)))"
    and "45 \<le> round_double (65 - round_double (r * 20))"
    and "round_double (65 - round_double (r * 20)) \<le> 65"
proof -
  have k: "(0::real) \<le> 20" "(20::real) \<le> 1000" "(20::real) \<le> 65" "(65::real) \<le> 1000"
    by simp_all
  have z: "is_double (65 - 20)" using is_double_consts(4) by simp
  note m = scaled_risk[OF assms k(1) k(2) is_double_consts(3)]
  note s = offset_minus[OF m(2) m(3) k(3) k(4) is_double_consts(2) z]
  show "lightnessForRisk (Fin r) = Fin (round_double (65 - round_double (r * 20)))"
    unfolding lightnessForRisk_def m(1) by (rule s(1))
  show "45 \<le> round_double (65 - round_double (r * 20))" using s(2) by simp
  show "round_double (65 - round_double (r * 20)) \<le> 65" by (rule s(3))
qed

lemma hueForRisk_antimono:
  assumes "0 \<le> a" "a \<le> b" "b \<le> 1"
  shows "round_double (120 - round_double (b * 120)) \<le> round_double (120 - round_double (a * 120))"
proof -
  have "a * 120 \<le> b * 120" using assms by simp
  then have "round_double (a * 120) \<le> round_double (b * 120)" by (rule round_double_mono)
  then have "120 - round_double (b * 120) \<le> 120 - round_double (a * 120)" by simp
  then show ?thesis by (rule round_double_mono)
qed

lemma hue_endpoints: "hueForRisk (Fin 0) = Fin 120" "hueForRisk (Fin 1) = Fin 0"
  "lightnessForRisk (Fin 0) = Fin 65" "lightnessForRisk (Fin 1) = Fin 45"
  by (simp_all add: hueForRisk_def lightnessForRisk_def js_sub_def fl_double is_double_consts)

lemma double_above_tenth: "is_double (7205759403792795 / 2 ^ 56)"
  unfolding is_double_def
  by (rule fl_eqI[where e = "- 4" and u = "- 56" and m = 7205759403792795]; simp)

lemma hue_at_tenth: "hueForRisk (Fin (7205759403792794 / 2 ^ 56)) = Fin 108"
proof -
  have "fl (7205759403792794 / 2 ^ 56 * 120) = Fin 12"
    by (rule fl_eqI[where e = 3 and u = "- 49" and m = "12 * 2 ^ 49"]; simp)
  moreover have "fl (120 - 12) = Fin 108"
    by (rule fl_eqI[where e = 6 and u = "- 46" and m = "108 * 2 ^ 46"]; simp)
  ultimately show ?thesis by (simp add: hueForRisk_def js_sub_def)
qed

lemma hue_above_tenth: "hueForRisk (Fin (7205759403792795 / 2 ^ 56)) = Fin 108"
proof -
  have "fl (7205759403792795 / 2 ^ 56 * 120) = Fin (6755399441055745 / 2 ^ 49)"
    by (rule fl_eqI[where e = 3 and u = "- 49" and m = 6755399441055745]; simp)
  moreover have "fl (120 - 6755399441055745 / 2 ^ 49) = Fin 108"
    by (rule fl_eqI[where e = 6 and u = "- 46" and m = "108 * 2 ^ 46"]; simp)
  ultimately show ?thesis by (simp add: hueForRisk_def js_sub_def)
qed

lemma round_double_error_128:
  assumes "\<bar>x\<bar> \<le> 128"
  shows "\<bar>round_double x - x\<bar> \<le> 1 / 2 ^ 46 + 1 / 2 ^ 60"
proof -
  have "(2::real) ^ 60 \<le> 2 ^ 1075" by (rule power_increasing) simp_all
  then have t: "1 / (2::real) ^ 1075 \<le> 1 / 2 ^ 60" by (rule divide_left_mono) simp_all
  have "\<bar>x\<bar> / 2 ^ 53 \<le> 128 / 2 ^ 53" using assms by (rule divide_right_mono) simp
  also have "\<dots> = (1::real) / 2 ^ 46" by simp
  finally have "\<bar>x\<bar> / 2 ^ 53 \<le> 1 / 2 ^ 46" .
  with t round_double_error[of x] show ?thesis by linarith
qed

lemma affine_error_tight:
  assumes "0 \<le> r" "r \<le> 1" "0 \<le> k" "k \<le> c" "c \<le> 128"
  shows "\<bar>round_double (c - round_double (r * k)) - (c - r * k)\<bar> \<le> 1 / 2 ^ 45 + 1 / 2 ^ 59"
proof -
  define e :: real where "e = 1 / 2 ^ 46 + 1 / 2 ^ 60"
  have e: "e \<le> 1" "2 * e = 1 / 2 ^ 45 + 1 / 2 ^ 59" by (simp_all add: e_def)
  have rk: "0 \<le> r * k" "r * k \<le> k" using assms by (simp_all add: mult_left_le_one_le)
  then have "\<bar>r * k\<bar> \<le> 128" using assms by linarith
  then have e1: "\<bar>round_double (r * k) - r * k\<bar> \<le> e"
    unfolding e_def by (rule round_double_error_128)
  have "\<bar>c - round_double (r * k)\<bar> \<le> 128"
    using e1 e(1) rk assms round_double_nonneg[OF rk(1)] by linarith
  then have e2: "\<bar>round_double (c - round_double (r * k)) - (c - round_double (r * k))\<bar> \<le> e"
    unfolding e_def by (rule round_double_error_128)
  have "\<bar>round_double (c - round_double (r * k)) - (c - r * k)\<bar> \<le> 2 * e"
    using e1 e2 by linarith
  then show ?thesis by (simp only: e(2))
qed

lemma affine_error:
  assumes "0 \<le> r" "r \<le> 1" "0 \<le> k" "k \<le> c" "c \<le> 128"
  shows "\<bar>round_double (c - round_double (r * k)) - (c - r * k)\<bar> \<le> 1 / 2 ^ 44"
proof -
  have "(1::real) / 2 ^ 45 + 1 / 2 ^ 59 \<le> 1 / 2 ^ 44" by simp
  with affine_error_tight[OF assms] show ?thesis by (rule order_trans)
qed

lemma hueForRisk_strict:
  assumes "0 \<le> a" "b \<le> 1" "1 / 2 ^ 50 \<le> b - a"
  shows "round_double (120 - round_double (b * 120)) < round_double (120 - round_double (a * 120))"
proof -
  define e :: real where "e = 1 / 2 ^ 45 + 1 / 2 ^ 59"
  define d :: real where "d = 1 / 2 ^ 50"
  have ed: "2 * e < 120 * d" "0 < d" by (simp_all add: e_def d_def)
  have d: "d \<le> b - a" using assms(3) by (simp only: d_def)
  have ab: "a \<le> 1" "0 \<le> b" using assms(1,2) d ed(2) by linarith+
  have ea: "\<bar>round_double (120 - round_double (a * 120)) - (120 - a * 120)\<bar> \<le> e"
    unfolding e_def using assms(1) ab(1) by (rule affine_error_tight) simp_all
  have eb: "\<bar>round_double (120 - round_double (b * 120)) - (120 - b * 120)\<bar> \<le> e"
    unfolding e_def using ab(2) assms(2) by (rule affine_error_tight) simp_all
  show ?thesis using ea eb ed(1) d by linarith
qed

text \<open>
  Claim C3. The colour of a risk is computed from the clamped risk \<open>r\<close> in \<open>[0, 1]\<close> as
  the text \<open>hsl(h, 85%, l%)\<close>, where the hue \<open>h\<close> is the double nearest to \<open>120 - p\<close> for
  \<open>p\<close> the double nearest to \<open>r * 120\<close>, and the lightness \<open>l\<close> is the double nearest to
  \<open>65 - q\<close> for \<open>q\<close> the double nearest to \<open>r * 20\<close>. The hue lies in \<open>[0, 120]\<close> and the
  lightness in \<open>[45, 65]\<close>, each within \<open>2\<^sup>-\<^sup>4\<^sup>4\<close> of the exact value of its formula. The
  hue is \<open>120\<close> at risk \<open>0\<close> and \<open>0\<close> at risk \<open>1\<close>. Between two risks \<open>a \<le> b\<close> of \<open>[0, 1]\<close>
  (which clamping leaves as they are) the hue of \<open>b\<close> is at most the hue of \<open>a\<close>, and it is
  strictly below it when \<open>b - a\<close> is at least \<open>2\<^sup>-\<^sup>5\<^sup>0\<close>. Two calls with the same risk give
  the same text: \<open>colorForRisk\<close> reads nothing but its argument.
\<close>

theorem risk_color_mapping:
  "(clampRisk x = Some c \<longrightarrow>
      (\<exists>r h l. c = Fin r \<and> 0 \<le> r \<and> r \<le> 1 \<and>
           h = round_double (120 - round_double (r * 120)) \<and>
           l = round_double (65 - round_double (r * 20)) \<and>
           hueForRisk c = Fin h \<and> lightnessForRisk c = Fin l \<and>
           0 \<le> h \<and> h \<le> 120 \<and> 45 \<le> l \<and> l \<le> 65 \<and>
           \<bar>h - (120 - r * 120)\<bar> \<le> 1 / 2 ^ 44 \<and> \<bar>l - (65 - r * 20)\<bar> \<le> 1 / 2 ^ 44 \<and>
           colorForRisk str c = ''hsl('' @ str (Fin h) @ '', 85%, '' @ str (Fin l) @ ''%)'')) \<and>
   hueForRisk (Fin 0) = Fin 120 \<and> hueForRisk (Fin 1) = Fin 0 \<and>
   (0 \<le> a \<and> a \<le> b \<and> b \<le> 1 \<longrightarrow>
      clampRisk (Some (Fin a)) = Some (Fin a) \<and> clampRisk (Some (Fin b)) = Some (Fin b) \<and>
      (\<exists>ha hb. hueForRisk (Fin a) = Fin ha \<and> hueForRisk (Fin b) = Fin hb \<and> hb \<le> ha \<and>
               (1 / 2 ^ 50 \<le> b - a \<longrightarrow> hb < ha))) \<and>
   (r1 = r2 \<longrightarrow> colorForRisk str r1 = colorForRisk str r2)"
proof (intro conjI impI)
  assume "clampRisk x = Some c"
  then obtain r where r: "c = Fin r" "0 \<le> r" "r \<le> 1" by (rule clampRisk_Some_range)
  define h where "h = round_double (120 - round_double (r * 120))"
  define l where "l = round_double (65 - round_double (r * 20))"
  note hu = hueForRisk_Fin[OF r(2,3), folded h_def]
  note li = lightnessForRisk_Fin[OF r(2,3), folded l_def]
  have eh: "\<bar>h - (120 - r * 120)\<bar> \<le> 1 / 2 ^ 44"
    unfolding h_def using r(2,3) by (rule affine_error) simp_all
  have el: "\<bar>l - (65 - r * 20)\<bar> \<le> 1 / 2 ^ 44"
    unfolding l_def using r(2,3) by (rule affine_error) simp_all
  have col: "colorForRisk str c = ''hsl('' @ str (Fin h) @ '', 85%, '' @ str (Fin l) @ ''%)''"
    by (simp only: colorForRisk_def r(1) hu(1) li(1))
  show "\<exists>r h l. c = Fin r \<and> 0 \<le> r \<and> r \<le> 1 \<and>
           h = round_double (120 - round_double (r * 120)) \<and>
           l = round_double (65 - round_double (r * 20)) \<and>
           hueForRisk c = Fin h \<and> lightnessForRisk c = Fin l \<and>
           0 \<le> h \<and> h \<le> 120 \<and> 45 \<le> l \<and> l \<le> 65 \<and>
           \<bar>h - (120 - r * 120)\<bar> \<le> 1 / 2 ^ 44 \<and> \<bar>l - (65 - r * 20)\<bar> \<le> 1 / 2 ^ 44 \<and>
           colorForRisk str c = ''hsl('' @ str (Fin h) @ '', 85%, '' @ str (Fin l) @ ''%)''"
    apply (rule exI[of _ r], rule exI[of _ h], rule exI[of _ l])
    apply (intro conjI)
    apply (rule r(1), rule r(2), rule r(3), rule h_def, rule l_def)
    apply (simp only: r(1) hu(1))
    apply (simp only: r(1) li(1))
    apply (rule hu(2), rule hu(3), rule li(2), rule li(3), rule eh, rule el, rule col)
    done
next
  show "hueForRisk (Fin 0) = Fin 120" by (rule hue_endpoints(1))
  show "hueForRisk (Fin 1) = Fin 0" by (rule hue_endpoints(2))
next
  assume h: "0 \<le> a \<and> a \<le> b \<and> b \<le> 1"
  then show "clampRisk (Some (Fin a)) = Some (Fin a)" "clampRisk (Some (Fin b)) = Some (Fin b)"
    by (simp_all add: clampRisk_cases)
  from h have a: "0 \<le> a" "a \<le> 1" and b: "0 \<le> b" "b \<le> 1" and ab: "a \<le> b" by linarith+
  show "\<exists>ha hb. hueForRisk (Fin a) = Fin ha \<and> hueForRisk (Fin b) = Fin hb \<and> hb \<le> ha \<and>
               (1 / 2 ^ 50 \<le> b - a \<longrightarrow> hb < ha)"
    apply (rule exI[of _ "round_double (120 - round_double (a * 120))"])
    apply (rule exI[of _ "round_double (120 - round_double (b * 120))"])
    apply (intro conjI impI)
       apply (rule hueForRisk_Fin(1)[OF a])
      apply (rule hueForRisk_Fin(1)[OF b])
     apply (rule hueForRisk_antimono[OF a(1) ab b(2)])
    apply (rule hueForRisk_strict[OF a(1) b(2)], assumption)
    done
next
  assume "r1 = r2"
  then show "colorForRisk str r1 = colorForRisk str r2" by simp
qed

theorem risk_color_mapping_witness:
  "colorForRisk (\<lambda>n. case n of Fin r \<Rightarrow> show_int \<lfloor>r\<rfloor> | _ \<Rightarrow> ''NaN'') (Fin 1)
     = ''hsl(0, 85%, 45%)'' \<and>
   colorForRisk (\<lambda>n. case n of Fin r \<Rightarrow> show_int \<lfloor>r\<rfloor> | _ \<Rightarrow> ''NaN'') (Fin 0)
     = ''hsl(120, 85%, 65%)'' \<and>
   (\<exists>ha hb. hueForRisk (Fin (1 / 4)) = Fin ha \<and> hueForRisk (Fin (1 / 2)) = Fin hb \<and> hb < ha)"
proof -
  let ?str = "(\<lambda>n. case n of Fin r \<Rightarrow> show_int \<lfloor>r\<rfloor> | _ \<Rightarrow> ''NaN'')"
  have ev: "show_int 0 = ''0''" "show_int 45 = ''45''" "show_int 120 = ''120''" "show_int 65 = ''65''"
    by (simp_all add: show_int_def show_nat.simps digit_char_def)
  note t = risk_color_mapping[of "Some (Fin 7)" "Fin 1" ?str "1 / 4" "1 / 2" "Fin 1" "Fin 1"]
  note u = risk_color_mapping[of "Some (Fin (- 3))" "Fin 0" ?str "1 / 4" "1 / 2" "Fin 0" "Fin 0"]
  have c: "clampRisk (Some (Fin 7)) = Some (Fin 1)" "clampRisk (Some (Fin (- 3))) = Some (Fin 0)"
    by (simp_all add: clampRisk_cases)
  from t[THEN conjunct1, rule_format, OF c(1)] obtain r h l where
    "hueForRisk (Fin 1) = Fin h" "lightnessForRisk (Fin 1) = Fin l"
    "colorForRisk ?str (Fin 1) = ''hsl('' @ ?str (Fin h) @ '', 85%, '' @ ?str (Fin l) @ ''%)''"
    by (elim exE conjE) (rule that)
  moreover note hue_endpoints(2,4)
  ultimately have 1: "colorForRisk ?str (Fin 1) = ''hsl(0, 85%, 45%)''" by (simp add: ev)
  from u[THEN conjunct1, rule_format, OF c(2)] obtain r h l where
    "hueForRisk (Fin 0) = Fin h" "lightnessForRisk (Fin 0) = Fin l"
    "colorForRisk ?str (Fin 0) = ''hsl('' @ ?str (Fin h) @ '', 85%, '' @ ?str (Fin l) @ ''%)''"
    by (elim exE conjE) (rule that)
  moreover note hue_endpoints(1,3)
  ultimately have 2: "colorForRisk ?str (Fin 0) = ''hsl(120, 85%, 65%)''" by (simp add: ev)
  have q: "(0::real) \<le> 1 / 4 \<and> (1::real) / 4 \<le> 1 / 2 \<and> (1::real) / 2 \<le> 1" by simp
  note m = t[THEN conjunct2, THEN conjunct2, THEN conjunct2, THEN conjunct1, rule_format, OF q]
  from m[THEN conjunct2, THEN conjunct2] obtain ha hb where
    h: "hueForRisk (Fin (1 / 4)) = Fin ha" "hueForRisk (Fin (1 / 2)) = Fin hb"
    and s: "1 / 2 ^ 50 \<le> (1::real) / 2 - 1 / 4 \<longrightarrow> hb < ha"
    by (elim exE conjE) (rule that)
  have "1 / 2 ^ 50 \<le> (1::real) / 2 - 1 / 4" by simp
  with s have "hb < ha" by (rule mp)
  with h have 3: "\<exists>ha hb. hueForRisk (Fin (1 / 4)) = Fin ha \<and> hueForRisk (Fin (1 / 2)) = Fin hb \<and> hb < ha"
    by (intro exI conjI)
  from 1 2 3 show ?thesis by (intro conjI)
qed

text \<open>
  Counterexample to claim C3 as the specification words it (the hue strictly decreases
  as the risk increases): the double nearest to \<open>0.1\<close>, which is \<open>7205759403792794 / 2\<^sup>5\<^sup>6\<close>,
  and the double next above it are two risks of \<open>[0, 1]\<close>, left as they are by the
  clamping, with the same hue \<open>108\<close>.
\<close>

theorem risk_color_hue_plateau:
  "js_lit (1 / 10) = Fin (7205759403792794 / 2 ^ 56) \<and>
   is_double (7205759403792795 / 2 ^ 56) \<and>
   (0::real) \<le> 7205759403792794 / 2 ^ 56 \<and>
   (7205759403792794 / 2 ^ 56 :: real) < 7205759403792795 / 2 ^ 56 \<and>
   (7205759403792795 / 2 ^ 56 :: real) \<le> 1 \<and>
   clampRisk (Some (Fin (7205759403792794 / 2 ^ 56))) = Some (Fin (7205759403792794 / 2 ^ 56)) \<and>
   clampRisk (Some (Fin (7205759403792795 / 2 ^ 56))) = Some (Fin (7205759403792795 / 2 ^ 56)) \<and>
   hueForRisk (Fin (7205759403792794 / 2 ^ 56)) = Fin 108 \<and>
   hueForRisk (Fin (7205759403792795 / 2 ^ 56)) = Fin 108 \<and>
   \<not> js_lt (hueForRisk (Fin (7205759403792795 / 2 ^ 56)))
           (hueForRisk (Fin (7205759403792794 / 2 ^ 56)))"
  apply (intro conjI)
           apply (simp add: js_lit_def fl_tenth)
          apply (rule double_above_tenth)
         apply simp
        apply simp
       apply simp
      apply (simp add: clampRisk_cases)
     apply (simp add: clampRisk_cases)
    apply (rule hue_at_tenth)
   apply (rule hue_above_tenth)
  apply (simp only: hue_at_tenth hue_above_tenth js_lt.simps)
  done


section \<open>Properties of the heatmap column ticks\<close>

lemma tickEvery_pos: "0 < tickEvery cols"
  by (simp add: tickEvery_def)

lemma tickEvery_covers: "cols \<le> maxXTicks * tickEvery cols"
  unfolding tickEvery_def maxXTicks_def by simp

lemma set_tickLoop:
  "set (tickLoop cols col) = {c. col \<le> c \<and> c < cols \<and> tickEvery cols dvd (c - col)}"
proof (induction cols col rule: tickLoop.induct)
  case (1 cols col)
  let ?te = "tickEvery cols"
  have te: "0 < ?te" by (rule tickEvery_pos)
  show ?case
  proof (cases "col < cols")
    case False
    then show ?thesis by (subst tickLoop.simps) auto
  next
    case True
    have "{c. col \<le> c \<and> c < cols \<and> ?te dvd (c - col)} =
          insert col {c. col + ?te \<le> c \<and> c < cols \<and> ?te dvd (c - (col + ?te))}" (is "?L = ?R")
    proof (intro set_eqI iffI)
      fix c assume "c \<in> ?L"
      then have c: "col \<le> c" "c < cols" "?te dvd (c - col)" by auto
      show "c \<in> ?R"
      proof (cases "c = col")
        case True then show ?thesis by simp
      next
        case False
        with c have pos: "0 < c - col" by simp
        with c(3) have "?te \<le> c - col" by (rule dvd_imp_le)
        then have ge: "col + ?te \<le> c" using c(1) by simp
        have "c - (col + ?te) = (c - col) - ?te" by simp
        moreover have "?te dvd ((c - col) - ?te)" using c(3) by (rule dvd_diff_nat) simp
        ultimately show ?thesis using ge c(2) by simp
      qed
    next
      fix c assume "c \<in> ?R"
      then consider "c = col" | "col + ?te \<le> c" "c < cols" "?te dvd (c - (col + ?te))" by auto
      then show "c \<in> ?L"
      proof cases
        case 1 then show ?thesis using True by simp
      next
        case 2
        have "c - col = (c - (col + ?te)) + ?te" using 2(1) by simp
        then have "?te dvd (c - col)" using 2(3) by simp
        then show ?thesis using 2 by simp
      qed
    qed
    moreover have "set (tickLoop cols col) = insert col (set (tickLoop cols (col + ?te)))"
      using True by (subst tickLoop.simps) simp
    ultimately show ?thesis using 1[OF True] by simp
  qed
qed

lemma ceil_div_step:
  fixes n te :: nat
  assumes "0 < te" "0 < n"
  shows "Suc ((n - te + te - 1) div te) = (n + te - 1) div te"
proof (cases "te \<le> n")
  case True
  then have "n - te + te - 1 = n - 1" by simp
  moreover have "n + te - 1 = (n - 1) + te" using assms(2) by simp
  moreover have "((n - 1) + te) div te = Suc ((n - 1) div te)" using assms(1) by simp
  ultimately show ?thesis by simp
next
  case False
  then have "n - te + te - 1 = te - 1" by simp
  moreover have "(te - 1) div te = 0" using assms(1) by simp
  moreover have "(n + te - 1) div te = 1"
  proof -
    have "n + te - 1 = (n - 1) + te" using assms(2) by simp
    moreover have "(n - 1) div te = 0" using False assms(2) by simp
    moreover have "((n - 1) + te) div te = Suc ((n - 1) div te)" using assms(1) by simp
    ultimately show ?thesis by simp
  qed
  ultimately show ?thesis by simp
qed

lemma length_tickLoop:
  "length (tickLoop cols col) = (cols - col + tickEvery cols - 1) div tickEvery cols"
proof (induction cols col rule: tickLoop.induct)
  case (1 cols col)
  let ?te = "tickEvery cols"
  have te: "0 < ?te" by (rule tickEvery_pos)
  show ?case
  proof (cases "col < cols")
    case False
    then have "cols - col + ?te - 1 < ?te" using te by simp
    then show ?thesis using False by (subst tickLoop.simps) simp
  next
    case True
    have "length (tickLoop cols col) = Suc (length (tickLoop cols (col + ?te)))"
      using True by (subst tickLoop.simps) simp
    also have "\<dots> = Suc ((cols - (col + ?te) + ?te - 1) div ?te)" using 1[OF True] by simp
    also have "cols - (col + ?te) = (cols - col) - ?te" by simp
    also have "Suc (((cols - col) - ?te + ?te - 1) div ?te) = (cols - col + ?te - 1) div ?te"
      using te True by (intro ceil_div_step) simp_all
    finally show ?thesis .
  qed
qed

lemma length_tickLoop_le: "length (tickLoop cols 0) \<le> maxXTicks"
proof -
  let ?te = "tickEvery cols"
  have te: "0 < ?te" by (rule tickEvery_pos)
  have "cols + ?te - 1 < maxXTicks * ?te + ?te" using tickEvery_covers[of cols] te by simp
  then have "cols + ?te - 1 < (maxXTicks + 1) * ?te" by (simp add: algebra_simps)
  then have "(cols + ?te - 1) div ?te < maxXTicks + 1" using te
    by (simp add: less_mult_imp_div_less)
  then show ?thesis by (simp add: length_tickLoop)
qed

lemma drawnTickColumns_Some_iff:
  "(\<exists>ticks. drawnTickColumns hasContext cols rowsCount = Some ticks)
     \<longleftrightarrow> hasContext \<and> 1 \<le> cols \<and> 1 \<le> rowsCount"
  by (auto simp: drawnTickColumns_def)

lemma drawnTickColumns_set:
  assumes "drawnTickColumns hasContext cols rowsCount = Some ticks"
  shows "1 \<le> cols"
    and "set ticks = {c. c < cols \<and> tickEvery cols dvd c} \<union> {cols - 1}"
proof -
  from assms show c: "1 \<le> cols" by (auto simp: drawnTickColumns_def split: if_splits)
  from assms have "ticks = (let drawnTicks = tickLoop cols 0
                 in if cols - 1 \<in> set drawnTicks then drawnTicks else drawnTicks @ [cols - 1])"
    by (auto simp: drawnTickColumns_def split: if_splits)
  then show "set ticks = {c. c < cols \<and> tickEvery cols dvd c} \<union> {cols - 1}"
    using c by (auto simp: Let_def set_tickLoop)
qed

lemma drawnTickColumns_length_le:
  assumes "drawnTickColumns hasContext cols rowsCount = Some ticks"
  shows "length ticks \<le> maxXTicks + 1"
proof -
  from assms have "ticks = (let drawnTicks = tickLoop cols 0
                 in if cols - 1 \<in> set drawnTicks then drawnTicks else drawnTicks @ [cols - 1])"
    by (auto simp: drawnTickColumns_def split: if_splits)
  then show ?thesis using length_tickLoop_le[of cols] by (simp add: Let_def)
qed

lemma tickLoop_24: "tickLoop 24 0 = [0, 2, 4, 6, 8, 10, 12, 14, 16, 18, 20, 22]"
  by code_simp

text \<open>
  Claim C2. For \<open>columnCount \<ge> 1\<close> (and at least one row and a 2d context, without which
  nothing is drawn) the drawn ticks are the multiples of \<open>tickEvery\<close> below \<open>columnCount\<close>
  together with the last column (\<open>drawnTickColumns_set\<close> above), and the claim bounds
  their number by 12. The loop alone draws at most \<open>maxXTicks = 12\<close> ticks
  (\<open>length_tickLoop_le\<close>), but the forced last tick comes on top of them: with 24 columns
  and any positive number of rows the stride is 2, the loop labels the 12 even columns,
  column 23 is added, and 13 ticks are drawn.
\<close>

theorem drawnTickColumns_24:
  "drawnTickColumns True 24 (Suc n) = Some [0, 2, 4, 6, 8, 10, 12, 14, 16, 18, 20, 22, 23] \<and>
   map_option length (drawnTickColumns True 24 (Suc n)) = Some 13 \<and>
   \<not> (13::nat) \<le> maxXTicks"
  by (simp add: drawnTickColumns_def tickLoop_24 maxXTicks_def)


section \<open>Properties of the scatter range padding\<close>

lemma padRange_not_finite:
  "\<not> isFinite mn \<or> \<not> isFinite mx \<Longrightarrow> padRange mn mx = (mn, mx)"
  by (simp add: padRange_def)

lemma padRange_zero:
  "padRange (Fin 0) (Fin 0) = (Fin (- round_double (1 / 10)), Fin (round_double (1 / 10)))"
proof -
  have 1: "fl (round_double (1 / 10)) = Fin (round_double (1 / 10))"
    using is_double_tenth by (simp only: is_double_def)
  have 2: "fl (- round_double (1 / 10)) = Fin (- round_double (1 / 10))"
    using is_double_minus[OF is_double_tenth] by (simp only: is_double_def)
  have "js_lit 0.1 = Fin (round_double (1 / 10))" using js_lit_tenth by simp
  then show ?thesis
    by (simp add: padRange_def js_eq_def js_or_def Let_def js_sub_def 1 2)
qed


lemma padRange_equal:
  assumes d: "is_double v" and nz: "v \<noteq> 0" and big: "\<bar>v\<bar> \<le> 2 ^ 1022"
  obtains lo hi where "padRange (Fin v) (Fin v) = (Fin lo, Fin hi)" "lo \<le> v" "v \<le> hi"
    "\<bar>lo - (v - \<bar>v\<bar> / 10)\<bar> \<le> 4 * (\<bar>v\<bar> / 2 ^ 53) + 2 * (1 / 2 ^ 1075)"
    "\<bar>hi - (v + \<bar>v\<bar> / 10)\<bar> \<le> 4 * (\<bar>v\<bar> / 2 ^ 53) + 2 * (1 / 2 ^ 1075)"
proof -
  define A where "A = \<bar>v\<bar>"
  define c where "c = round_double (1 / 10)"
  define M :: real where "M = 2 ^ 1022"
  define T :: real where "T = 1 / 2 ^ 1075"
  define U where "U = A / 2 ^ 53"
  define p where "p = round_double (A * c)"
  define lo where "lo = round_double (v - p)"
  define hi where "hi = round_double (v + p)"
  have A: "0 < A" "A \<le> M" "\<bar>v\<bar> = A" using nz big by (simp_all add: A_def M_def)
  have dA: "is_double A" unfolding A_def using d by (rule is_double_abs)
  have c: "0 \<le> c" "c \<le> 1 / 8" "\<bar>c - 1 / 10\<bar> \<le> 1 / 2 ^ 53"
    unfolding c_def by (rule tenth_bounds)+
  have M2: "2 * M = 2 ^ 1023" unfolding M_def by (rule big_double)
  have Ac: "0 \<le> A * c" "A * c \<le> A / 8"
  proof -
    show "0 \<le> A * c" using A(1) c(1) by simp
    have "A * c \<le> A * (1 / 8)" using c(2) A(1) by (intro mult_left_mono) simp_all
    then show "A * c \<le> A / 8" by simp
  qed
  have p0: "0 \<le> p" unfolding p_def using Ac(1) by (rule round_double_nonneg)
  have "A * c \<le> A" using Ac A(1) by linarith
  then have pA: "p \<le> A" unfolding p_def using dA by (rule round_double_le_double)
  have "\<bar>A * c\<bar> \<le> A" using Ac A(1) by linarith
  then have e1: "\<bar>p - A * c\<bar> \<le> U + T"
    unfolding p_def U_def T_def by (rule round_double_error_le)
  have "A * \<bar>c - 1 / 10\<bar> \<le> A * (1 / 2 ^ 53)" using c(3) A(1) by (intro mult_left_mono) simp_all
  moreover have "A * c - A / 10 = A * (c - 1 / 10)" by (simp add: algebra_simps)
  then have "\<bar>A * c - A / 10\<bar> = A * \<bar>c - 1 / 10\<bar>" using A(1) by (simp add: abs_mult)
  moreover have "A * (1 / 2 ^ 53) = U" by (simp add: U_def)
  ultimately have e2: "\<bar>A * c - A / 10\<bar> \<le> U" by (simp only:)
  have "\<bar>A * c\<bar> \<le> 2 * M" using Ac A by linarith
  then have "\<bar>A * c\<bar> \<le> 2 ^ 1023" by (simp only: M2)
  then have fp: "fl (A * c) = Fin p" unfolding p_def by (rule fl_in_range)
  have vm: "\<bar>v - p\<bar> \<le> 2 * A" "\<bar>v + p\<bar> \<le> 2 * A" using A(3) p0 pA by linarith+
  have "\<bar>v - p\<bar> \<le> 2 * M" "\<bar>v + p\<bar> \<le> 2 * M" using vm A(2) by linarith+
  then have r: "\<bar>v - p\<bar> \<le> 2 ^ 1023" "\<bar>v + p\<bar> \<le> 2 ^ 1023" by (simp_all only: M2)
  have fl_lo: "fl (v - p) = Fin lo" unfolding lo_def using r(1) by (rule fl_in_range)
  have fl_hi: "fl (v + p) = Fin hi" unfolding hi_def using r(2) by (rule fl_in_range)
  have "(2 * A) / 2 ^ 53 = 2 * U" by (simp add: U_def)
  with round_double_error_le[OF vm(1)] round_double_error_le[OF vm(2)]
  have e3: "\<bar>lo - (v - p)\<bar> \<le> 2 * U + T" "\<bar>hi - (v + p)\<bar> \<le> 2 * U + T"
    unfolding lo_def hi_def T_def by simp_all
  have lit: "js_lit 0.1 = Fin c" using js_lit_tenth by (simp add: c_def)
  have pr: "padRange (Fin v) (Fin v) = (Fin lo, Fin hi)"
    using nz by (simp add: padRange_def js_eq_def js_or_def Let_def js_sub_def lit A(3) fp fl_lo fl_hi)
  have "v - p \<le> v" using p0 by simp
  then have c1: "lo \<le> v" unfolding lo_def using d by (rule round_double_le_double)
  have "v \<le> v + p" using p0 by simp
  then have c2: "v \<le> hi" unfolding hi_def using d by (rule round_double_ge_double)
  have b1: "\<bar>lo - (v - A / 10)\<bar> \<le> 4 * U + 2 * T" using e1 e2 e3(1) by linarith
  have b2: "\<bar>hi - (v + A / 10)\<bar> \<le> 4 * U + 2 * T" using e1 e2 e3(2) by linarith
  show ?thesis
    using pr c1 c2 b1 b2 unfolding U_def T_def A_def by (rule that)
qed


lemma padRange_distinct:
  assumes dn: "is_double mn" and dx: "is_double mx" and lt: "mn < mx"
    and bn: "\<bar>mn\<bar> \<le> 2 ^ 1022" and bx: "\<bar>mx\<bar> \<le> 2 ^ 1022"
  obtains lo hi where "padRange (Fin mn) (Fin mx) = (Fin lo, Fin hi)" "lo \<le> mn" "mx \<le> hi"
    "\<bar>lo - (mn - (mx - mn) / 20)\<bar> \<le> 10 * ((\<bar>mn\<bar> + \<bar>mx\<bar>) / 2 ^ 53) + 7 * (1 / 2 ^ 1075)"
    "\<bar>hi - (mx + (mx - mn) / 20)\<bar> \<le> 10 * ((\<bar>mn\<bar> + \<bar>mx\<bar>) / 2 ^ 53) + 7 * (1 / 2 ^ 1075)"
proof -
  define s where "s = mx - mn"
  define B where "B = \<bar>mn\<bar> + \<bar>mx\<bar>"
  define c where "c = round_double (1 / 20)"
  define M :: real where "M = 2 ^ 1022"
  define T :: real where "T = 1 / 2 ^ 1075"
  define U where "U = B / 2 ^ 53"
  define sp where "sp = round_double s"
  define ex where "ex = round_double (sp * c)"
  define lo where "lo = round_double (mn - ex)"
  define hi where "hi = round_double (mx + ex)"
  have s: "0 < s" "s \<le> B" "\<bar>s\<bar> \<le> B" using lt by (simp_all add: s_def B_def)
  have B: "0 \<le> B" "B \<le> 2 * M" "\<bar>mn\<bar> \<le> B" "\<bar>mx\<bar> \<le> B" "\<bar>mn\<bar> \<le> M" "\<bar>mx\<bar> \<le> M"
    using bn bx by (simp_all add: B_def M_def)
  have c: "0 \<le> c" "c \<le> 1 / 16" "\<bar>c - 1 / 20\<bar> \<le> 1 / 2 ^ 53"
    unfolding c_def by (rule twentieth_bounds)+
  have M2: "2 * M = 2 ^ 1023" unfolding M_def by (rule big_double)
  have M16: "16 \<le> M" unfolding M_def by (rule sixteen_le_big)
  have T: "0 \<le> T" "T \<le> 1" "T / 2 ^ 53 \<le> T"
  proof -
    show "0 \<le> T" by (simp add: T_def)
    then show "T / 2 ^ 53 \<le> T" by (rule shrink_53)
    show "T \<le> 1" unfolding T_def by (rule tiny_le_1)
  qed
  have U: "0 \<le> U" "U \<le> B / 64" "U / 2 ^ 53 \<le> U"
  proof -
    show "0 \<le> U" using B(1) by (simp add: U_def)
    then show "U / 2 ^ 53 \<le> U" by (rule shrink_53)
    show "U \<le> B / 64" unfolding U_def using B(1) by (rule shrink_53_64)
  qed
  have sp0: "0 \<le> sp" unfolding sp_def using s(1) by (intro round_double_nonneg) simp
  have e1: "\<bar>sp - s\<bar> \<le> U + T"
    unfolding sp_def U_def T_def using s(3) by (rule round_double_error_le)
  have "\<bar>s\<bar> \<le> 2 * M" using s(3) B(2) by linarith
  then have "\<bar>s\<bar> \<le> 2 ^ 1023" by (simp only: M2)
  then have fs: "fl s = Fin sp" unfolding sp_def by (rule fl_in_range)
  have x: "0 \<le> sp * c" "sp * c \<le> sp / 16" "sp * c \<le> sp"
  proof -
    show "0 \<le> sp * c" using sp0 c(1) by simp
    have "sp * c \<le> sp * (1 / 16)" using c(2) sp0 by (intro mult_left_mono) simp_all
    then show "sp * c \<le> sp / 16" by simp
    then show "sp * c \<le> sp" using sp0 by linarith
  qed
  have spB: "sp \<le> B + U + T" using e1 s(2) by linarith
  have "\<bar>sp * c\<bar> \<le> 2 * M" using x spB U(2) T(2) B(2) M16 by linarith
  then have "\<bar>sp * c\<bar> \<le> 2 ^ 1023" by (simp only: M2)
  then have fx: "fl (sp * c) = Fin ex" unfolding ex_def by (rule fl_in_range)
  have ex0: "0 \<le> ex" unfolding ex_def using x(1) by (rule round_double_nonneg)
  have "\<bar>sp * c\<bar> \<le> B + U + T" using x spB sp0 by linarith
  then have "\<bar>ex - sp * c\<bar> \<le> (B + U + T) / 2 ^ 53 + T"
    unfolding ex_def T_def by (rule round_double_error_le)
  moreover have "(B + U + T) / 2 ^ 53 = U + U / 2 ^ 53 + T / 2 ^ 53"
    by (simp add: U_def add_divide_distrib)
  ultimately have e2: "\<bar>ex - sp * c\<bar> \<le> 2 * U + 2 * T" using U(3) T(3) by linarith
  have "sp * c - s * c = (sp - s) * c" by (simp add: algebra_simps)
  then have "\<bar>sp * c - s * c\<bar> = \<bar>sp - s\<bar> * c" using c(1) by (simp add: abs_mult)
  also have "\<dots> \<le> \<bar>sp - s\<bar>"
  proof (rule mult_left_le)
    show "c \<le> 1" using c(2) by linarith
    show "0 \<le> \<bar>sp - s\<bar>" by simp
  qed
  also note e1
  finally have e3: "\<bar>sp * c - s * c\<bar> \<le> U + T" .
  have "s * c - s / 20 = s * (c - 1 / 20)" by (simp add: algebra_simps)
  then have "\<bar>s * c - s / 20\<bar> = s * \<bar>c - 1 / 20\<bar>" using s(1) by (simp add: abs_mult)
  also have "\<dots> \<le> s * (1 / 2 ^ 53)" using c(3) s(1) by (intro mult_left_mono) simp_all
  also have "\<dots> \<le> B * (1 / 2 ^ 53)" using s(2) by (intro mult_right_mono) simp_all
  also have "\<dots> = U" by (simp add: U_def)
  finally have e4: "\<bar>s * c - s / 20\<bar> \<le> U" .
  have e5: "\<bar>ex - s / 20\<bar> \<le> 4 * U + 3 * T" using e2 e3 e4 by linarith
  have exB: "ex \<le> B + 4 * U + 3 * T" using e5 s(1,2) by linarith
  have v: "\<bar>mn - ex\<bar> \<le> 2 * B + 4 * U + 3 * T" "\<bar>mx + ex\<bar> \<le> 2 * B + 4 * U + 3 * T"
    using exB ex0 B(3,4) by linarith+
  have exM: "ex \<le> M" using e5 s(2) B(2) U(2) T(2) M16 by linarith
  have "\<bar>mn - ex\<bar> \<le> 2 * M" "\<bar>mx + ex\<bar> \<le> 2 * M" using exM ex0 B(5,6) by linarith+
  then have r: "\<bar>mn - ex\<bar> \<le> 2 ^ 1023" "\<bar>mx + ex\<bar> \<le> 2 ^ 1023" by (simp_all only: M2)
  have fl_lo: "fl (mn - ex) = Fin lo" unfolding lo_def using r(1) by (rule fl_in_range)
  have fl_hi: "fl (mx + ex) = Fin hi" unfolding hi_def using r(2) by (rule fl_in_range)
  have "(2 * B + 4 * U + 3 * T) / 2 ^ 53 = 2 * U + 4 * (U / 2 ^ 53) + 3 * (T / 2 ^ 53)"
    by (simp add: U_def add_divide_distrib)
  with round_double_error_le[OF v(1), folded lo_def T_def]
       round_double_error_le[OF v(2), folded hi_def T_def]
  have "\<bar>lo - (mn - ex)\<bar> \<le> 2 * U + 4 * (U / 2 ^ 53) + 3 * (T / 2 ^ 53) + T"
       "\<bar>hi - (mx + ex)\<bar> \<le> 2 * U + 4 * (U / 2 ^ 53) + 3 * (T / 2 ^ 53) + T"
    by (simp_all only:)
  then have e6: "\<bar>lo - (mn - ex)\<bar> \<le> 6 * U + 4 * T" "\<bar>hi - (mx + ex)\<bar> \<le> 6 * U + 4 * T"
    using U(3) T(3) by linarith+
  have lit: "js_lit (1 / 20) = Fin c" using js_lit_twentieth by (simp only: c_def)
  have pr: "padRange (Fin mn) (Fin mx) = (Fin lo, Fin hi)"
    using lt by (simp add: padRange_def js_eq_def Let_def js_sub_def lit s_def[symmetric] fs fx fl_lo fl_hi)
  have "mn - ex \<le> mn" using ex0 by simp
  then have c1: "lo \<le> mn" unfolding lo_def using dn by (rule round_double_le_double)
  have "mx \<le> mx + ex" using ex0 by simp
  then have c2: "mx \<le> hi" unfolding hi_def using dx by (rule round_double_ge_double)
  have b1: "\<bar>lo - (mn - s / 20)\<bar> \<le> 10 * U + 7 * T" using e5 e6(1) by linarith
  have b2: "\<bar>hi - (mx + s / 20)\<bar> \<le> 10 * U + 7 * T" using e5 e6(2) by linarith
  show ?thesis
    using pr c1 c2 b1 b2 unfolding U_def T_def B_def s_def by (rule that)
qed


lemma fl_fifth: "fl (1 / 5) = Fin (3602879701896397 / 2 ^ 54)"
  by (rule fl_eqI[where e = "- 3" and u = "- 55" and m = 7205759403792794]; simp)

lemma fl_two_tenths:
  "fl (round_double (1 / 10) + round_double (1 / 10)) = Fin (3602879701896397 / 2 ^ 54)"
  unfolding round_double_tenth
  by (rule fl_eqI[where e = "- 3" and u = "- 55" and m = 7205759403792794]; simp)

lemma padRange_one:
  "padRange (Fin 1) (Fin 1) = (Fin (8106479329266893 / 2 ^ 53), Fin (4953959590107546 / 2 ^ 52))"
proof -
  have lit: "js_lit (1 / 10) = Fin (3602879701896397 / 2 ^ 55)"
    by (simp only: js_lit_def fl_tenth)
  have p: "fl (3602879701896397 / 2 ^ 55) = Fin (3602879701896397 / 2 ^ 55)"
    using is_double_tenth by (simp only: is_double_def round_double_tenth)
  have lo: "fl (1 - 3602879701896397 / 2 ^ 55) = Fin (8106479329266893 / 2 ^ 53)"
    by (rule fl_eqI[where e = "- 1" and u = "- 53" and m = 8106479329266893]; simp)
  have hi: "fl (1 + 3602879701896397 / 2 ^ 55) = Fin (4953959590107546 / 2 ^ 52)"
    by (rule fl_eqI[where e = 0 and u = "- 52" and m = 4953959590107546]; simp)
  show ?thesis
    using lit p lo hi by (simp add: padRange_def js_eq_def js_or_def Let_def js_sub_def)
qed

text \<open>
  Claim C4. Let \<open>min \<le> max\<close> be doubles of magnitude at most \<open>2\<^sup>1\<^sup>0\<^sup>2\<^sup>2\<close>. Then \<open>padRange\<close>
  returns a finite interval \<open>[lo, hi]\<close> that contains \<open>[min, max]\<close>. If \<open>min = max = 0\<close> the
  interval is \<open>[-c, c]\<close> for \<open>c\<close> the double nearest to \<open>0.1\<close>, its span is positive and
  \<open>hi - lo\<close> evaluates to the double \<open>0.2\<close>. If \<open>min = max = v\<close> with \<open>v \<noteq> 0\<close>, each end is
  within \<open>|v| / 2\<^sup>5\<^sup>1 + 2\<^sup>-\<^sup>1\<^sup>0\<^sup>7\<^sup>4\<close> of \<open>v \<mp> 0.1 * |v|\<close>, the span is within twice that of
  \<open>0.2 * |v|\<close>, and it is positive when \<open>|v|\<close> is at least \<open>2\<^sup>-\<^sup>1\<^sup>0\<^sup>7\<^sup>0\<close>. If \<open>min < max\<close>, then
  \<open>lo < hi\<close>, each end is within \<open>(|min| + |max|) / 2\<^sup>4\<^sup>9 + 2\<^sup>-\<^sup>1\<^sup>0\<^sup>7\<^sup>1\<close> of the end moved out
  by 5% of \<open>max - min\<close>, and the span is within twice that of \<open>1.10 * (max - min)\<close>.
\<close>

theorem padRange_span:
  assumes "is_double mn" "is_double mx" "mn \<le> mx" "\<bar>mn\<bar> \<le> 2 ^ 1022" "\<bar>mx\<bar> \<le> 2 ^ 1022"
  shows "\<exists>lo hi. padRange (Fin mn) (Fin mx) = (Fin lo, Fin hi) \<and> lo \<le> mn \<and> mx \<le> hi \<and>
           (mn = mx \<and> mn = 0 \<longrightarrow>
              lo = - round_double (1 / 10) \<and> hi = round_double (1 / 10) \<and> 0 < hi - lo \<and>
              js_sub (Fin hi) (Fin lo) = js_lit (2 / 10)) \<and>
           (mn = mx \<and> mn \<noteq> 0 \<longrightarrow>
              \<bar>lo - (mn - \<bar>mn\<bar> / 10)\<bar> \<le> \<bar>mn\<bar> / 2 ^ 51 + 1 / 2 ^ 1074 \<and>
              \<bar>hi - (mx + \<bar>mn\<bar> / 10)\<bar> \<le> \<bar>mn\<bar> / 2 ^ 51 + 1 / 2 ^ 1074 \<and>
              \<bar>(hi - lo) - 2 / 10 * \<bar>mn\<bar>\<bar> \<le> \<bar>mn\<bar> / 2 ^ 50 + 1 / 2 ^ 1073 \<and>
              (1 / 2 ^ 1070 \<le> \<bar>mn\<bar> \<longrightarrow> lo < hi)) \<and>
           (mn < mx \<longrightarrow>
              lo < hi \<and>
              \<bar>lo - (mn - 5 / 100 * (mx - mn))\<bar> \<le> (\<bar>mn\<bar> + \<bar>mx\<bar>) / 2 ^ 49 + 1 / 2 ^ 1071 \<and>
              \<bar>hi - (mx + 5 / 100 * (mx - mn))\<bar> \<le> (\<bar>mn\<bar> + \<bar>mx\<bar>) / 2 ^ 49 + 1 / 2 ^ 1071 \<and>
              \<bar>(hi - lo) - 110 / 100 * (mx - mn)\<bar> \<le> (\<bar>mn\<bar> + \<bar>mx\<bar>) / 2 ^ 48 + 1 / 2 ^ 1070)"
proof -
  consider (zero) "mn = mx" "mn = 0" | (equal) "mn = mx" "mn \<noteq> 0" | (distinct) "mn < mx"
    using assms(3) by fastforce
  then show ?thesis
  proof cases
    case zero
    define c where "c = round_double (1 / 10)"
    have c: "c = 3602879701896397 / 2 ^ 55" unfolding c_def by (rule round_double_tenth)
    have 1: "padRange (Fin mn) (Fin mx) = (Fin (- c), Fin c)"
      using zero padRange_zero by (simp add: c_def)
    have 2: "js_sub (Fin c) (Fin (- c)) = js_lit (2 / 10)"
      using fl_two_tenths fl_fifth by (simp add: js_sub_def js_lit_def c_def)
    have 3: "0 < c" by (simp add: c)
    show ?thesis
      apply (rule exI[of _ "- c"], rule exI[of _ c])
      using 1 2 3 zero by (simp add: c_def)
  next
    case equal
    have big: "\<bar>mn\<bar> \<le> 2 ^ 1022" by (rule assms(4))
    obtain lo hi where r: "padRange (Fin mn) (Fin mn) = (Fin lo, Fin hi)" "lo \<le> mn" "mn \<le> hi"
      "\<bar>lo - (mn - \<bar>mn\<bar> / 10)\<bar> \<le> 4 * (\<bar>mn\<bar> / 2 ^ 53) + 2 * (1 / 2 ^ 1075)"
      "\<bar>hi - (mn + \<bar>mn\<bar> / 10)\<bar> \<le> 4 * (\<bar>mn\<bar> / 2 ^ 53) + 2 * (1 / 2 ^ 1075)"
      using assms(1) equal(2) big by (rule padRange_equal)
    define A where "A = \<bar>mn\<bar>"
    define E where "E = A / 2 ^ 51 + 1 / 2 ^ 1074"
    have E: "4 * (A / 2 ^ 53) + 2 * (1 / 2 ^ 1075) = E" by (simp add: E_def)
    have E2: "2 * E = A / 2 ^ 50 + 1 / 2 ^ 1073" by (simp add: E_def)
    note e = r(4,5)[folded A_def, unfolded E]
    have s: "\<bar>(hi - lo) - 2 / 10 * A\<bar> \<le> 2 * E" using e by linarith
    have pos: "lo < hi" if "1 / 2 ^ 1070 \<le> A"
    proof -
      have "A / 2 ^ 50 + 1 / 2 ^ 1073 \<le> A / 2 ^ 50 + A / 8" using that by simp
      moreover have "A / 2 ^ 50 \<le> A / 64" using that by simp
      moreover have "0 < A" using equal(2) by (simp add: A_def)
      ultimately have "2 * E < 2 / 10 * A" unfolding E2 by linarith
      with s show ?thesis by linarith
    qed
    note s' = s[unfolded E2]
    note e' = e[unfolded E_def]
    show ?thesis
      apply (rule exI[of _ lo], rule exI[of _ hi])
      using r(1,2,3) e' s' pos equal unfolding A_def by simp
  next
    case distinct
    obtain lo hi where r: "padRange (Fin mn) (Fin mx) = (Fin lo, Fin hi)" "lo \<le> mn" "mx \<le> hi"
      "\<bar>lo - (mn - (mx - mn) / 20)\<bar> \<le> 10 * ((\<bar>mn\<bar> + \<bar>mx\<bar>) / 2 ^ 53) + 7 * (1 / 2 ^ 1075)"
      "\<bar>hi - (mx + (mx - mn) / 20)\<bar> \<le> 10 * ((\<bar>mn\<bar> + \<bar>mx\<bar>) / 2 ^ 53) + 7 * (1 / 2 ^ 1075)"
      using assms(1,2) distinct assms(4,5) by (rule padRange_distinct)
    define B where "B = \<bar>mn\<bar> + \<bar>mx\<bar>"
    define E where "E = B / 2 ^ 49 + 1 / 2 ^ 1071"
    have "0 \<le> B" by (simp add: B_def)
    then have E: "10 * (B / 2 ^ 53) + 7 * (1 / 2 ^ 1075) \<le> E" by (simp add: E_def)
    have E2: "2 * E = B / 2 ^ 48 + 1 / 2 ^ 1070" by (simp add: E_def)
    define d where "d = (mx - mn) / 20"
    have d: "5 / 100 * (mx - mn) = d" "110 / 100 * (mx - mn) = (mx - mn) + 2 * d"
      by (simp_all add: d_def field_simps)
    note e0 = r(4,5)[folded B_def d_def]
    have e: "\<bar>lo - (mn - d)\<bar> \<le> E" "\<bar>hi - (mx + d)\<bar> \<le> E"
      using e0 E by linarith+
    have s: "\<bar>(hi - lo) - ((mx - mn) + 2 * d)\<bar> \<le> 2 * E" using e by linarith
    have pos: "lo < hi" using r(2,3) distinct by linarith
    note s' = s[unfolded E2]
    note e' = e[unfolded E_def]
    show ?thesis
      apply (rule exI[of _ lo], rule exI[of _ hi])
      unfolding d
      using r(1,2,3) e' s' pos distinct unfolding B_def by simp
  qed
qed


lemma is_double_small: "is_double 2" "is_double 3"
  unfolding is_double_def
   apply (rule fl_eqI[where e = 1 and u = "- 51" and m = "2 ^ 52"]; simp)
  apply (rule fl_eqI[where e = 1 and u = "- 51" and m = "3 * 2 ^ 51"]; simp)
  done

theorem padRange_span_witness:
  "(\<exists>lo hi. padRange (Fin 0) (Fin 0) = (Fin lo, Fin hi) \<and> 0 < hi - lo \<and>
             js_sub (Fin hi) (Fin lo) = js_lit (2 / 10)) \<and>
   (\<exists>lo hi. padRange (Fin 2) (Fin 2) = (Fin lo, Fin hi) \<and> lo \<le> 2 \<and> 2 \<le> hi \<and> lo < hi \<and>
             \<bar>(hi - lo) - 2 / 10 * \<bar>2\<bar>\<bar> \<le> \<bar>2\<bar> / 2 ^ 50 + 1 / 2 ^ 1073) \<and>
   (\<exists>lo hi. padRange (Fin 1) (Fin 3) = (Fin lo, Fin hi) \<and> lo \<le> 1 \<and> 3 \<le> hi \<and> lo < hi \<and>
             \<bar>(hi - lo) - 110 / 100 * (3 - 1)\<bar> \<le> (\<bar>1\<bar> + \<bar>3\<bar>) / 2 ^ 48 + 1 / 2 ^ 1070)"
proof (intro conjI)
  have p: "(0::real) \<le> 0" "\<bar>0::real\<bar> \<le> 2 ^ 1022" by simp_all
  from padRange_span[OF is_double_0 is_double_0 p(1) p(2) p(2)]
  obtain lo hi where a: "padRange (Fin 0) (Fin 0) = (Fin lo, Fin hi)"
    and b: "(0::real) = 0 \<and> (0::real) = 0 \<longrightarrow>
              lo = - round_double (1 / 10) \<and> hi = round_double (1 / 10) \<and> 0 < hi - lo \<and>
              js_sub (Fin hi) (Fin lo) = js_lit (2 / 10)"
    by (elim exE conjE) (rule that)
  have q: "(0::real) = 0 \<and> (0::real) = 0" by simp
  note f = b[rule_format, OF q]
  note f [THEN conjunct2, THEN conjunct2, THEN conjunct1]
       f [THEN conjunct2, THEN conjunct2, THEN conjunct2]
  with a show "\<exists>lo hi. padRange (Fin 0) (Fin 0) = (Fin lo, Fin hi) \<and> 0 < hi - lo \<and>
             js_sub (Fin hi) (Fin lo) = js_lit (2 / 10)"
    by (intro exI conjI)
next
  have p: "(2::real) \<le> 2" "\<bar>2::real\<bar> \<le> 2 ^ 1022" by simp_all
  from padRange_span[OF is_double_small(1) is_double_small(1) p(1) p(2) p(2)]
  obtain lo hi where a: "padRange (Fin 2) (Fin 2) = (Fin lo, Fin hi)" "lo \<le> 2" "2 \<le> hi"
    and b: "(2::real) = 2 \<and> (2::real) \<noteq> 0 \<longrightarrow>
              \<bar>lo - (2 - \<bar>2\<bar> / 10)\<bar> \<le> \<bar>2\<bar> / 2 ^ 51 + 1 / 2 ^ 1074 \<and>
              \<bar>hi - (2 + \<bar>2\<bar> / 10)\<bar> \<le> \<bar>2\<bar> / 2 ^ 51 + 1 / 2 ^ 1074 \<and>
              \<bar>(hi - lo) - 2 / 10 * \<bar>2\<bar>\<bar> \<le> \<bar>2\<bar> / 2 ^ 50 + 1 / 2 ^ 1073 \<and>
              (1 / 2 ^ 1070 \<le> \<bar>2::real\<bar> \<longrightarrow> lo < hi)"
    by (elim exE conjE) (rule that)
  have q: "(2::real) = 2 \<and> (2::real) \<noteq> 0" by simp
  have "(1::real) / 2 ^ 1070 \<le> 1" by (simp only: divide_le_eq_1_pos zero_less_power zero_less_numeral one_le_power one_le_numeral)
  then have r: "1 / 2 ^ 1070 \<le> \<bar>2::real\<bar>" by simp
  note f = b[rule_format, OF q]
  note c = f [THEN conjunct2, THEN conjunct2, THEN conjunct1]
  note d = f [THEN conjunct2, THEN conjunct2, THEN conjunct2]
  from d r have "lo < hi" by (rule mp)
  with a c show "\<exists>lo hi. padRange (Fin 2) (Fin 2) = (Fin lo, Fin hi) \<and> lo \<le> 2 \<and> 2 \<le> hi \<and> lo < hi \<and>
             \<bar>(hi - lo) - 2 / 10 * \<bar>2\<bar>\<bar> \<le> \<bar>2\<bar> / 2 ^ 50 + 1 / 2 ^ 1073"
    by (intro exI conjI)
next
  have p: "(1::real) \<le> 3" "\<bar>1::real\<bar> \<le> 2 ^ 1022" "\<bar>3::real\<bar> \<le> 2 ^ 1022" by simp_all
  from padRange_span[OF is_double_consts(5) is_double_small(2) p]
  obtain lo hi where a: "padRange (Fin 1) (Fin 3) = (Fin lo, Fin hi)" "lo \<le> 1" "3 \<le> hi"
    and b: "(1::real) < 3 \<longrightarrow>
              lo < hi \<and>
              \<bar>lo - (1 - 5 / 100 * (3 - 1))\<bar> \<le> (\<bar>1\<bar> + \<bar>3\<bar>) / 2 ^ 49 + 1 / 2 ^ 1071 \<and>
              \<bar>hi - (3 + 5 / 100 * (3 - 1))\<bar> \<le> (\<bar>1\<bar> + \<bar>3\<bar>) / 2 ^ 49 + 1 / 2 ^ 1071 \<and>
              \<bar>(hi - lo) - 110 / 100 * (3 - 1)\<bar> \<le> (\<bar>1\<bar> + \<bar>3\<bar>) / 2 ^ 48 + 1 / 2 ^ 1070"
    by (elim exE conjE) (rule that)
  have q: "(1::real) < 3" by simp
  note f = b[rule_format, OF q]
  note c = f [THEN conjunct1] f [THEN conjunct2, THEN conjunct2, THEN conjunct2]
  with a show "\<exists>lo hi. padRange (Fin 1) (Fin 3) = (Fin lo, Fin hi) \<and> lo \<le> 1 \<and> 3 \<le> hi \<and> lo < hi \<and>
             \<bar>(hi - lo) - 110 / 100 * (3 - 1)\<bar> \<le> (\<bar>1\<bar> + \<bar>3\<bar>) / 2 ^ 48 + 1 / 2 ^ 1070"
    by (intro exI conjI)
qed

text \<open>
  Counterexample to claim C4 as the specification words it (for \<open>min = max = v \<noteq> 0\<close> the
  padded span equals \<open>0.2 * |v|\<close>), at \<open>v = 1\<close>: the two ends are the doubles nearest to
  \<open>1 - c\<close> and \<open>1 + c\<close> for \<open>c\<close> the double nearest to \<open>0.1\<close>; their difference is not the
  real number \<open>0.2\<close>, and \<open>hi - lo\<close> evaluates to a double other than \<open>0.2 * Math.abs(1)\<close>.
\<close>

theorem padRange_span_one:
  "is_double 1 \<and>
   padRange (Fin 1) (Fin 1) = (Fin (8106479329266893 / 2 ^ 53), Fin (4953959590107546 / 2 ^ 52)) \<and>
   (4953959590107546 / 2 ^ 52 - 8106479329266893 / 2 ^ 53 :: real) \<noteq> 2 / 10 * \<bar>1\<bar> \<and>
   js_sub (Fin (4953959590107546 / 2 ^ 52)) (Fin (8106479329266893 / 2 ^ 53))
     = Fin (3602879701896398 / 2 ^ 54) \<and>
   js_mul (js_lit (2 / 10)) (Math_abs (Fin 1)) = Fin (3602879701896397 / 2 ^ 54) \<and>
   \<not> js_eq (js_sub (Fin (4953959590107546 / 2 ^ 52)) (Fin (8106479329266893 / 2 ^ 53)))
            (js_mul (js_lit (2 / 10)) (Math_abs (Fin 1)))"
proof -
  have s: "js_sub (Fin (4953959590107546 / 2 ^ 52)) (Fin (8106479329266893 / 2 ^ 53))
             = Fin (3602879701896398 / 2 ^ 54)"
    unfolding js_sub_def js_neg.simps js_add.simps
    by (rule fl_eqI[where e = "- 3" and u = "- 55" and m = 7205759403792796]; simp)
  have "fl (3602879701896397 / 2 ^ 54) = Fin (3602879701896397 / 2 ^ 54)"
    by (rule fl_eqI[where e = "- 3" and u = "- 55" and m = 7205759403792794]; simp)
  then have m: "js_mul (js_lit (2 / 10)) (Math_abs (Fin 1)) = Fin (3602879701896397 / 2 ^ 54)"
    using fl_fifth by (simp add: js_lit_def)
  show ?thesis
    apply (intro conjI)
         apply (rule is_double_consts(5))
        apply (rule padRange_one)
       apply simp
      apply (rule s)
     apply (rule m)
    apply (simp only: s m js_eq_def)
    apply simp
    done
qed


section \<open>Properties of the time series domain\<close>

lemma fl_1e17: "fl (10 ^ 17) = Fin (10 ^ 17)"
  by (rule fl_eqI[where e = 56 and u = 4 and m = 6250000000000000]; simp)

lemma ChartSVG_domain_single:
  "lbls \<noteq> [] \<Longrightarrow>
   ChartSVG_domain lbls [Fin v] [] = Some (js_sub (Fin v) (Fin 1), js_add (Fin v) (Fin 1))"
  by (simp add: ChartSVG_domain_def Math_min_def Math_max_def js_min2_def js_max2_def
      js_eq_def Let_def)

text \<open>
  Claim C5. For non-empty data the claim puts every value and threshold inside the Y
  domain \<open>[y0, y1]\<close> and makes \<open>y1 - y0\<close> positive, the domain being \<open>[v - 1, v + 1]\<close> when
  all values equal \<open>v\<close>, so that \<open>yscale\<close> never divides by zero. The guard
  \<open>minY === maxY ? minY - 1 : minY\<close> is there for that, but it adds and subtracts \<open>1\<close> in
  double arithmetic: for a one-point series with the value \<open>1e17\<close> (a double) and no
  thresholds, \<open>minY = maxY = 1e17\<close>, both \<open>1e17 - 1\<close> and \<open>1e17 + 1\<close> round back to \<open>1e17\<close>,
  so that \<open>y0 = y1\<close>, the denominator \<open>y1 - y0\<close> of \<open>yscale\<close> is \<open>0\<close> and the Y coordinate
  of the point is \<open>0 / 0\<close>, that is \<open>NaN\<close>. The lemma \<open>ChartSVG_domain_single_point\<close> below
  evaluates the ordinary case of one point with the value \<open>21.5\<close>.
\<close>

theorem ChartSVG_domain_degenerate:
  "is_double (10 ^ 17) \<and>
   ChartSVG_domain [''t0''] [Fin (10 ^ 17)] [] = Some (Fin (10 ^ 17), Fin (10 ^ 17)) \<and>
   js_sub (Fin (10 ^ 17)) (Fin (10 ^ 17)) = Fin 0 \<and>
   ChartSVG_yscale (Fin (10 ^ 17)) (Fin (10 ^ 17)) (Fin (10 ^ 17)) = NaN"
proof (intro conjI)
  show "is_double (10 ^ 17)" unfolding is_double_def by (rule fl_1e17)
  have s: "js_sub (Fin (10 ^ 17)) (Fin 1) = Fin (10 ^ 17)"
          "js_add (Fin (10 ^ 17)) (Fin 1) = Fin (10 ^ 17)"
    using fl_big by (simp_all add: js_sub_def)
  have "ChartSVG_domain [''t0''] [Fin (10 ^ 17)] []
          = Some (js_sub (Fin (10 ^ 17)) (Fin 1), js_add (Fin (10 ^ 17)) (Fin 1))"
    by (rule ChartSVG_domain_single) simp
  then show "ChartSVG_domain [''t0''] [Fin (10 ^ 17)] [] = Some (Fin (10 ^ 17), Fin (10 ^ 17))"
    by (simp only: s)
  show z: "js_sub (Fin (10 ^ 17)) (Fin (10 ^ 17)) = Fin 0"
    by (simp add: js_sub_def)
  show "ChartSVG_yscale (Fin (10 ^ 17)) (Fin (10 ^ 17)) (Fin (10 ^ 17)) = NaN"
    unfolding ChartSVG_yscale_def z by (simp add: js_sub_def)
qed

lemma ChartSVG_domain_single_point:
  "ChartSVG_domain [''t0''] [Fin (43 / 2)] [] = Some (Fin (41 / 2), Fin (45 / 2))"
  "ChartSVG_yscale (Fin (41 / 2)) (Fin (45 / 2)) (Fin (43 / 2)) = Fin 156"
proof -
  have a: "fl (43 / 2 - 1) = Fin (41 / 2)"
    by (rule fl_eqI[where e = 4 and u = "- 48" and m = "41 * 2 ^ 47"]; simp)
  have b: "fl (43 / 2 + 1) = Fin (45 / 2)"
    by (rule fl_eqI[where e = 4 and u = "- 48" and m = "45 * 2 ^ 47"]; simp)
  have "ChartSVG_domain [''t0''] [Fin (43 / 2)] []
          = Some (js_sub (Fin (43 / 2)) (Fin 1), js_add (Fin (43 / 2)) (Fin 1))"
    by (rule ChartSVG_domain_single) simp
  then show "ChartSVG_domain [''t0''] [Fin (43 / 2)] [] = Some (Fin (41 / 2), Fin (45 / 2))"
    using a b by (simp add: js_sub_def)
  have c: "fl (43 / 2 - 41 / 2) = Fin 1"
    by (rule fl_eqI[where e = 0 and u = "- 52" and m = "2 ^ 52"]; simp)
  have d: "fl (45 / 2 - 41 / 2) = Fin 2"
    by (rule fl_eqI[where e = 1 and u = "- 51" and m = "2 ^ 52"]; simp)
  have e: "fl (1 / 2) = Fin (1 / 2)"
    by (rule fl_eqI[where e = "- 1" and u = "- 53" and m = "2 ^ 52"]; simp)
  have f: "fl (1 - 1 / 2) = Fin (1 / 2)"
    by (rule fl_eqI[where e = "- 1" and u = "- 53" and m = "2 ^ 52"]; simp)
  have g: "fl (1 / 2 * 248) = Fin 124"
    by (rule fl_eqI[where e = 6 and u = "- 46" and m = "124 * 2 ^ 46"]; simp)
  have h: "fl (32 + 124) = Fin 156"
    by (rule fl_eqI[where e = 7 and u = "- 45" and m = "156 * 2 ^ 45"]; simp)
  show "ChartSVG_yscale (Fin (41 / 2)) (Fin (45 / 2)) (Fin (43 / 2)) = Fin 156"
    using c d e f g h by (simp add: ChartSVG_yscale_def js_sub_def)
qed

lemma ChartSVG_domain_no_data:
  "ChartSVG_domain [] vals thresholds = None" "ChartSVG_domain lbls [] thresholds = None"
  by (simp_all add: ChartSVG_domain_def)

lemma ChartSVG_domain_threshold_in_view:
  "ChartSVG_domain [''t0'', ''t1''] [Fin 2, Fin 1]
     [\<lparr>label = ''high'', kind = upper, thr_value = Fin 5\<rparr>] = Some (Fin 1, Fin 5)"
  by (simp add: ChartSVG_domain_def Math_min_def Math_max_def js_min2_def js_max2_def
      js_eq_def Let_def)


section \<open>Properties of the report collection\<close>

lemma awaitSection_cases:
  "awaitSection k ref =
     (case ref of None \<Rightarrow> ([], Inr None) | Some outcome \<Rightarrow> ([GetReportSection k], outcome))"
  by (cases ref) simp_all

lemma collectSections_mounted:
  "collectSections (Some (Inr s1)) (Some (Inr s2)) (Some (Inr s3)) =
     ([GetReportSection TimeseriesPanel, GetReportSection ScatterPanel, GetReportSection HeatmapPanel],
      Inr (List.map_filter id [s1, s2, s3]))"
  by (cases s1; cases s2; cases s3) (simp_all add: collectSections_def push_section_def List.map_filter_def)

lemma collectSections_queries:
  "subseq [k. GetReportSection k \<leftarrow> fst (collectSections r1 r2 r3)]
          [TimeseriesPanel, ScatterPanel, HeatmapPanel]"
  by (auto simp: collectSections_def awaitSection_cases split: option.splits sum.splits)

lemma collectSections_only_queries:
  "e \<in> set (fst (collectSections r1 r2 r3)) \<Longrightarrow> \<exists>k. e = GetReportSection k"
  by (auto simp: collectSections_def awaitSection_cases split: option.splits sum.splits)

text \<open>
  Claim C8. An invocation that is not already downloading asks the time series panel,
  then the scatter panel, then the heatmap panel, and keeps the sections that are not
  null in that order, a panel without a section changing nothing for the others; with no
  section at all it shows the alert and does not call the export. In every invocation
  the panels are asked in that order (some may not be asked: a ref that is not set, a
  rejection that ends the collection), and the export is only ever called on a report
  with at least one section.
\<close>

theorem handleDownloadReport_order_and_guard:
  "(\<not> reportDownloading \<longrightarrow>
      handleDownloadReport reportDownloading now hid dis (Some (Inr s1)) (Some (Inr s2)) (Some (Inr s3)) =
        [SetReportDownloading True, GetReportSection TimeseriesPanel,
         GetReportSection ScatterPanel, GetReportSection HeatmapPanel] @
        (if List.map_filter id [s1, s2, s3] = []
         then [Alert ''Load at least one chart before exporting the report.'']
         else [DownloadChartsReport
                 \<lparr>generatedAt = now, houseId = hid, disease = dis,
                  sections = List.map_filter id [s1, s2, s3]\<rparr>]) @
        [SetReportDownloading False]) \<and>
   subseq [k. GetReportSection k \<leftarrow> handleDownloadReport reportDownloading now hid dis r1 r2 r3]
          [TimeseriesPanel, ScatterPanel, HeatmapPanel] \<and>
   (\<forall>rep. DownloadChartsReport rep \<in> set (handleDownloadReport reportDownloading now hid dis r1 r2 r3)
        \<longrightarrow> sections rep \<noteq> [])"
proof (intro conjI impI allI)
  assume "\<not> reportDownloading"
  then show "handleDownloadReport reportDownloading now hid dis (Some (Inr s1)) (Some (Inr s2)) (Some (Inr s3)) =
        [SetReportDownloading True, GetReportSection TimeseriesPanel,
         GetReportSection ScatterPanel, GetReportSection HeatmapPanel] @
        (if List.map_filter id [s1, s2, s3] = []
         then [Alert ''Load at least one chart before exporting the report.'']
         else [DownloadChartsReport
                 \<lparr>generatedAt = now, houseId = hid, disease = dis,
                  sections = List.map_filter id [s1, s2, s3]\<rparr>]) @
        [SetReportDownloading False]"
    by (simp add: handleDownloadReport_def collectSections_mounted)
next
  obtain es res where c: "collectSections r1 r2 r3 = (es, res)" by (cases "collectSections r1 r2 r3")
  have q: "subseq [k. GetReportSection k \<leftarrow> es] [TimeseriesPanel, ScatterPanel, HeatmapPanel]"
    using collectSections_queries[of r1 r2 r3] c by simp
  show "subseq [k. GetReportSection k \<leftarrow> handleDownloadReport reportDownloading now hid dis r1 r2 r3]
          [TimeseriesPanel, ScatterPanel, HeatmapPanel]"
    using q c by (cases res) (simp_all add: handleDownloadReport_def)
next
  fix rep
  assume a: "DownloadChartsReport rep \<in> set (handleDownloadReport reportDownloading now hid dis r1 r2 r3)"
  obtain es res where c: "collectSections r1 r2 r3 = (es, res)" by (cases "collectSections r1 r2 r3")
  have nq: "DownloadChartsReport rep \<notin> set es"
    using collectSections_only_queries[of "DownloadChartsReport rep" r1 r2 r3] c by auto
  show "sections rep \<noteq> []"
    using a nq c by (cases res) (auto simp: handleDownloadReport_def split: if_splits)
qed

theorem handleDownloadReport_order_and_guard_witness:
  "handleDownloadReport False ''2024-01-01T00:00:00.000Z'' ''h1'' None
      (Some (Inr None))
      (Some (Inr (Some \<lparr>imageDataUrl = ''data:'', title = ''Scatter'',
                          filters = ScatterFilters ''s'' ''x'' ''y'' ''1h'' ''24h'', data = ()\<rparr>)))
      (Some (Inr None)) =
     [SetReportDownloading True, GetReportSection TimeseriesPanel,
      GetReportSection ScatterPanel, GetReportSection HeatmapPanel,
      DownloadChartsReport
        \<lparr>generatedAt = ''2024-01-01T00:00:00.000Z'', houseId = ''h1'', disease = None,
         sections = [\<lparr>imageDataUrl = ''data:'', title = ''Scatter'',
                      filters = ScatterFilters ''s'' ''x'' ''y'' ''1h'' ''24h'', data = ()\<rparr>]\<rparr>,
      SetReportDownloading False]"
proof -
  have "\<not> False" by simp
  from handleDownloadReport_order_and_guard[THEN conjunct1, rule_format, OF this,
          of "''2024-01-01T00:00:00.000Z''" "''h1''" None
          None "Some \<lparr>imageDataUrl = ''data:'', title = ''Scatter'',
                          filters = ScatterFilters ''s'' ''x'' ''y'' ''1h'' ''24h'', data = ()\<rparr>" None]
  show ?thesis by (simp add: List.map_filter_def)
qed


section \<open>Properties of the HTML escaping\<close>

lemma replaceAll_append: "replaceAll c rep (xs @ ys) = replaceAll c rep xs @ replaceAll c rep ys"
  by (simp add: replaceAll_def)

lemma replaceAll_concat_map:
  "replaceAll c rep (concat (map f s)) = concat (map (\<lambda>x. replaceAll c rep (f x)) s)"
  by (induction s) (simp_all add: replaceAll_append, simp add: replaceAll_def)

lemma replaceAll_as_map: "replaceAll c rep s = concat (map (\<lambda>x. if x = c then rep else [x]) s)"
  by (simp add: replaceAll_def)

lemma escapeHtml_concat_map: "escapeHtml s = concat (map escapeChar s)"
proof -
  have "escapeHtml s = concat (map (\<lambda>x.
          replaceAll squote ''&#39;'' (replaceAll dquote ''&quot;'' (replaceAll CHR ''>'' ''&gt;''
            (replaceAll CHR ''<'' ''&lt;'' (if x = CHR ''&'' then ''&amp;'' else [x]))))) s)"
    unfolding escapeHtml_def replaceAll_as_map[of "CHR ''&''"] replaceAll_concat_map ..
  also have "(\<lambda>x. replaceAll squote ''&#39;'' (replaceAll dquote ''&quot;'' (replaceAll CHR ''>'' ''&gt;''
            (replaceAll CHR ''<'' ''&lt;'' (if x = CHR ''&'' then ''&amp;'' else [x]))))) = escapeChar"
    by (rule ext) (simp add: escapeChar_def replaceAll_def dquote_def squote_def)
  finally show ?thesis .
qed

lemma escapeChar_no_raw:
  "set (escapeChar c) \<inter> {CHR ''<'', CHR ''>'', dquote, squote} = {}"
  by (simp add: escapeChar_def dquote_def squote_def)

lemma escapeHtml_no_raw:
  "set (escapeHtml s) \<inter> {CHR ''<'', CHR ''>'', dquote, squote} = {}"
  using escapeChar_no_raw by (fastforce simp: escapeHtml_concat_map)



section \<open>Properties of the timestamp reformatter\<close>

lemma parseTimestampParts_None: "parseTimestampParts rt None = None"
  by (simp add: parseTimestampParts_def)

lemma trim_Nil [simp]: "trim [] = []"
  by (simp add: trim_def)

lemma parseTimestampParts_blank: "trim r = [] \<Longrightarrow> parseTimestampParts rt (Some r) = None"
  by (simp add: parseTimestampParts_def Let_def)

lemma parseTimestampParts_unparseable:
  "isoMatch (trim r) = None \<Longrightarrow> Date_fromString rt (trim r) = None \<Longrightarrow>
   parseTimestampParts rt (Some r) = None"
  by (simp add: parseTimestampParts_def Let_def)

text \<open>
  Claim C6. \<open>formatTimestamp\<close> has no failing path: it is a total function to
  \<open>string | null\<close>. For null or undefined, and for a string that is empty after trimming,
  it returns null; for a string that is not empty after trimming, does not match the
  strict pattern and is not accepted by \<open>new Date(string)\<close>, it returns the trimmed
  string as it is.
\<close>

theorem formatTimestamp_fallbacks:
  "formatTimestamp rt None = None \<and>
   (trim r = [] \<longrightarrow> formatTimestamp rt (Some r) = None) \<and>
   (trim r \<noteq> [] \<and> isoMatch (trim r) = None \<and> Date_fromString rt (trim r) = None \<longrightarrow>
      formatTimestamp rt (Some r) = Some (trim r))"
  by (simp add: formatTimestamp_def parseTimestampParts_None parseTimestampParts_blank
      parseTimestampParts_unparseable)

lemma isoMatch_not_a_date: "isoMatch ''not a date'' = None"
  by (simp add: isoMatch_def match_core_def take_digits_def is_digit_def)

lemma trim_not_a_date: "trim ''  not a date '' = ''not a date''"
  by (simp add: trim_def is_space_def)

lemma trim_blank: "trim ''   '' = []"
  by (simp add: trim_def is_space_def)

theorem formatTimestamp_fallbacks_witness:
  "formatTimestamp
      \<lparr>Date_UTC = (\<lambda>y mo d h mi s ms. 0), Date_fromString = (\<lambda>s. None),
       getFullYear = (\<lambda>t. 1970), getMonth = (\<lambda>t. 0), getDate = (\<lambda>t. 1), getHours = (\<lambda>t. 0),
       getMinutes = (\<lambda>t. 0), getSeconds = (\<lambda>t. 0), getMilliseconds = (\<lambda>t. 0)\<rparr>
      (Some ''  not a date '') = Some ''not a date'' \<and>
   formatTimestamp
      \<lparr>Date_UTC = (\<lambda>y mo d h mi s ms. 0), Date_fromString = (\<lambda>s. None),
       getFullYear = (\<lambda>t. 1970), getMonth = (\<lambda>t. 0), getDate = (\<lambda>t. 1), getHours = (\<lambda>t. 0),
       getMinutes = (\<lambda>t. 0), getSeconds = (\<lambda>t. 0), getMilliseconds = (\<lambda>t. 0)\<rparr>
      (Some ''   '') = None"
  using formatTimestamp_fallbacks[of
      "\<lparr>Date_UTC = (\<lambda>y mo d h mi s ms. 0), Date_fromString = (\<lambda>s. None),
       getFullYear = (\<lambda>t. 1970), getMonth = (\<lambda>t. 0), getDate = (\<lambda>t. 1), getHours = (\<lambda>t. 0),
       getMinutes = (\<lambda>t. 0), getSeconds = (\<lambda>t. 0), getMilliseconds = (\<lambda>t. 0)\<rparr>" "''  not a date ''"]
    formatTimestamp_fallbacks[of
      "\<lparr>Date_UTC = (\<lambda>y mo d h mi s ms. 0), Date_fromString = (\<lambda>s. None),
       getFullYear = (\<lambda>t. 1970), getMonth = (\<lambda>t. 0), getDate = (\<lambda>t. 1), getHours = (\<lambda>t. 0),
       getMinutes = (\<lambda>t. 0), getSeconds = (\<lambda>t. 0), getMilliseconds = (\<lambda>t. 0)\<rparr>" "''   ''"]
  by (simp add: isoMatch_not_a_date trim_not_a_date trim_blank)


section \<open>Properties of the strict timestamp pattern\<close>

lemma take_digits_Some:
  assumes "take_digits n s = Some (d, r)"
  shows "s = d @ r" "length d = n" "list_all is_digit d"
  using assms by (auto simp: take_digits_def split: if_splits)

lemma take_digits_append:
  "length d = n \<Longrightarrow> list_all is_digit d \<Longrightarrow> take_digits n (d @ r) = Some (d, r)"
  by (simp add: take_digits_def)

lemma expect_Some: "expect p s = Some r \<Longrightarrow> \<exists>c. s = c # r \<and> p c"
  by (cases s) (auto simp: expect_def split: if_splits)

lemma expect_Cons: "expect p (c # r) = (if p c then Some r else None)"
  by (simp add: expect_def)

lemma digit_not_space: "is_digit c \<Longrightarrow> \<not> is_space c"
  by (auto simp: is_digit_def is_space_def)

lemma digit_not_sign: "is_digit c \<Longrightarrow> c \<noteq> CHR ''-'' \<and> c \<noteq> CHR ''+''"
  by (auto simp: is_digit_def)

lemma parseInt10_digits:
  assumes "d \<noteq> []" "list_all is_digit d"
  shows "parseInt10 d = Some (int (digits_val d))"
proof -
  obtain c cs where d: "d = c # cs" using assms(1) by (cases d) auto
  have c: "is_digit c" using assms(2) d by simp
  have 1: "dropWhile is_space d = d" using c d digit_not_space by simp
  have 2: "takeWhile is_digit d = d" using assms(2) by (simp add: list_all_iff)
  show ?thesis
    using 1 2 d digit_not_sign[OF c] by (simp add: parseInt10_def Let_def)
qed





lemma match_core_SomeE:
  assumes "match_core s = Some (g, rest)"
  obtains y mo d sep h mi t sec fr where
    "s = y @ CHR ''-'' # mo @ CHR ''-'' # d @ sep # h @ CHR '':'' # mi @ t"
    "length y = 4" "list_all is_digit y" "length mo = 2" "list_all is_digit mo"
    "length d = 2" "list_all is_digit d" "sep = CHR '' '' \<or> sep = CHR ''T''"
    "length h = 2" "list_all is_digit h" "length mi = 2" "list_all is_digit mi"
    "match_seconds t = (sec, fr, rest)"
    "g = \<lparr>yearStr = y, monthStr = mo, dayStr = d, hourStr = h, minuteStr = mi,
          secondStr = sec, fractionStr = fr, zoneStr = None, signSymbol = None,
          offHourStr = None, offMinStr = None\<rparr>"
proof -
  from assms obtain y s1 where 1: "take_digits 4 s = Some (y, s1)"
    by (auto simp: match_core_def split: Option.bind_splits)
  from assms 1 obtain s2 where 2: "expect (\<lambda>c. c = CHR ''-'') s1 = Some s2"
    by (auto simp: match_core_def split: Option.bind_splits)
  from assms 1 2 obtain mo s3 where 3: "take_digits 2 s2 = Some (mo, s3)"
    by (auto simp: match_core_def split: Option.bind_splits)
  from assms 1 2 3 obtain s4 where 4: "expect (\<lambda>c. c = CHR ''-'') s3 = Some s4"
    by (auto simp: match_core_def split: Option.bind_splits)
  from assms 1 2 3 4 obtain d s5 where 5: "take_digits 2 s4 = Some (d, s5)"
    by (auto simp: match_core_def split: Option.bind_splits)
  from assms 1 2 3 4 5 obtain s6 where 6: "expect (\<lambda>c. c = CHR '' '' \<or> c = CHR ''T'') s5 = Some s6"
    by (auto simp: match_core_def split: Option.bind_splits)
  from assms 1 2 3 4 5 6 obtain h s7 where 7: "take_digits 2 s6 = Some (h, s7)"
    by (auto simp: match_core_def split: Option.bind_splits)
  from assms 1 2 3 4 5 6 7 obtain s8 where 8: "expect (\<lambda>c. c = CHR '':'') s7 = Some s8"
    by (auto simp: match_core_def split: Option.bind_splits)
  from assms 1 2 3 4 5 6 7 8 obtain mi s9 where 9: "take_digits 2 s8 = Some (mi, s9)"
    by (auto simp: match_core_def split: Option.bind_splits)
  obtain sec fr s10 where 10: "match_seconds s9 = (sec, fr, s10)" by (cases "match_seconds s9")
  from assms 1 2 3 4 5 6 7 8 9 10
  have g: "g = \<lparr>yearStr = y, monthStr = mo, dayStr = d, hourStr = h, minuteStr = mi,
          secondStr = sec, fractionStr = fr, zoneStr = None, signSymbol = None,
          offHourStr = None, offMinStr = None\<rparr>" and r: "rest = s10"
    by (simp_all add: match_core_def)
  from expect_Some[OF 2] have e2: "s1 = CHR ''-'' # s2" by auto
  from expect_Some[OF 4] have e4: "s3 = CHR ''-'' # s4" by auto
  from expect_Some[OF 6] obtain sep where e6: "s5 = sep # s6" "sep = CHR '' '' \<or> sep = CHR ''T''" by auto
  from expect_Some[OF 8] have e8: "s7 = CHR '':'' # s8" by auto
  note t1 = take_digits_Some[OF 1] and t3 = take_digits_Some[OF 3] and t5 = take_digits_Some[OF 5]
    and t7 = take_digits_Some[OF 7] and t9 = take_digits_Some[OF 9]
  have "s = y @ CHR ''-'' # mo @ CHR ''-'' # d @ sep # h @ CHR '':'' # mi @ s9"
    using t1(1) e2 t3(1) e4 t5(1) e6(1) t7(1) e8 t9(1) by simp
  then show ?thesis
    using that[of y mo d sep h mi s9 sec fr] t1(2,3) t3(2,3) t5(2,3) e6(2) t7(2,3) t9(2,3) 10 g r
    by simp
qed

lemma match_core_I:
  assumes "length y = 4" "list_all is_digit y" "length mo = 2" "list_all is_digit mo"
    "length d = 2" "list_all is_digit d" "sep = CHR '' '' \<or> sep = CHR ''T''"
    "length h = 2" "list_all is_digit h" "length mi = 2" "list_all is_digit mi"
    "match_seconds t = (sec, fr, rest)"
  shows "match_core (y @ CHR ''-'' # mo @ CHR ''-'' # d @ sep # h @ CHR '':'' # mi @ t) =
     Some (\<lparr>yearStr = y, monthStr = mo, dayStr = d, hourStr = h, minuteStr = mi,
          secondStr = sec, fractionStr = fr, zoneStr = None, signSymbol = None,
          offHourStr = None, offMinStr = None\<rparr>, rest)"
  using assms by (simp add: match_core_def take_digits_append expect_Cons)




lemma match_zone_unfold:
  assumes "rest \<noteq> []" "dropWhile is_space rest = c # r"
  shows "match_zone rest =
     (if c = CHR ''Z'' \<or> c = CHR ''z'' then
        (if r = [] then Some (Some [c], None, None, None) else None)
      else if c = CHR ''+'' \<or> c = CHR ''-'' then
        (case take_digits 2 r of
           None \<Rightarrow> None
         | Some (hh, r2) \<Rightarrow>
             (case take_digits 2 (case expect (\<lambda>c. c = CHR '':'') r2 of Some x \<Rightarrow> x | None \<Rightarrow> r2) of
                None \<Rightarrow> None
              | Some (mm, r4) \<Rightarrow>
                  if r4 = [] then Some (Some (c # r), Some [c], Some hh, Some mm) else None))
      else None)"
  using assms by (simp add: match_zone_def Let_def split: option.splits prod.splits)

lemma match_zone_cases [consumes 1, case_names none zulu signed]:
  assumes "match_zone rest = Some (z, sg, oh, om)"
  obtains
    (none) "rest = []" "z = None" "sg = None" "oh = None" "om = None"
  | (zulu) ws c where "rest = ws @ [c]" "list_all is_space ws" "c = CHR ''Z'' \<or> c = CHR ''z''"
      "z = Some [c]" "sg = None" "oh = None" "om = None"
  | (signed) ws c hh colon mm where "rest = ws @ c # hh @ colon @ mm" "list_all is_space ws"
      "c = CHR ''+'' \<or> c = CHR ''-''" "length hh = 2" "list_all is_digit hh"
      "colon = [] \<or> colon = '':''" "length mm = 2" "list_all is_digit mm"
      "z = Some (c # hh @ colon @ mm)" "sg = Some [c]" "oh = Some hh" "om = Some mm"
proof (cases "rest = []")
  case True
  with assms show ?thesis by (intro none) (simp_all add: match_zone_def)
next
  case False
  define ws where "ws = takeWhile is_space rest"
  have ws: "list_all is_space ws" by (auto simp: ws_def list_all_iff dest: set_takeWhileD)
  obtain c r where dw: "dropWhile is_space rest = c # r"
  proof (cases "dropWhile is_space rest")
    case Nil
    with assms False have False by (simp add: match_zone_def del: dropWhile_eq_Nil_conv)
    then show ?thesis ..
  next
    case (Cons a list)
    then show ?thesis by (rule that)
  qed
  have rest: "rest = ws @ c # r" unfolding ws_def dw[symmetric] by simp
  note u = match_zone_unfold[OF False dw]
  show ?thesis
  proof (cases "c = CHR ''Z'' \<or> c = CHR ''z''")
    case True
    with assms u have "r = []" "z = Some [c]" "sg = None" "oh = None" "om = None"
      by (simp_all split: if_splits)
    with rest ws True show ?thesis by (intro zulu[of ws c]) simp_all
  next
    case nz: False
    have sgn: "c = CHR ''+'' \<or> c = CHR ''-''"
      using assms u nz by (simp split: if_splits)
    obtain hh r2 where 1: "take_digits 2 r = Some (hh, r2)"
      using assms u nz sgn by (cases "take_digits 2 r") auto
    define r3 where "r3 = (case expect (\<lambda>c. c = CHR '':'') r2 of Some x \<Rightarrow> x | None \<Rightarrow> r2)"
    obtain mm r4 where 2: "take_digits 2 r3 = Some (mm, r4)"
      using assms u nz sgn 1 unfolding r3_def
      by (cases "take_digits 2 (case expect (\<lambda>c. c = CHR '':'') r2 of Some x \<Rightarrow> x | None \<Rightarrow> r2)") auto
    have res: "r4 = []" "z = Some (c # r)" "sg = Some [c]" "oh = Some hh" "om = Some mm"
      using assms u nz sgn 1 2[unfolded r3_def] by (simp_all split: if_splits)
    obtain colon where colon: "r2 = colon @ r3" "colon = [] \<or> colon = '':''"
    proof (cases "expect (\<lambda>c. c = CHR '':'') r2")
      case None
      then have "r2 = [] @ r3" by (simp add: r3_def)
      then show ?thesis using that by blast
    next
      case (Some x)
      then have "r3 = x" "r2 = CHR '':'' # x" using expect_Some[OF Some] by (auto simp: r3_def)
      then have "r2 = '':'' @ r3" by simp
      then show ?thesis using that by blast
    qed
    note t1 = take_digits_Some[OF 1] and t2 = take_digits_Some[OF 2]
    have r: "r = hh @ colon @ mm" using t1(1) colon(1) t2(1) res(1) by simp
    show ?thesis
      using rest ws sgn t1(2,3) colon(2) t2(2,3) res(2-) r
      by (intro signed[of ws c hh colon mm]) simp_all
  qed
qed







lemma isoMatch_SomeE:
  assumes "isoMatch s = Some g"
  obtains g1 rest z sg oh om where "match_core s = Some (g1, rest)"
    "match_zone rest = Some (z, sg, oh, om)"
    "g = g1\<lparr>zoneStr := z, signSymbol := sg, offHourStr := oh, offMinStr := om\<rparr>"
proof (cases "match_core s")
  case None
  with assms show ?thesis by (simp add: isoMatch_def)
next
  case (Some a)
  obtain g1 rest where a: "a = (g1, rest)" by (cases a)
  show ?thesis
  proof (cases "match_zone rest")
    case None
    with assms Some a show ?thesis by (simp add: isoMatch_def)
  next
    case (Some b)
    obtain z sg oh om where b: "b = (z, sg, oh, om)" by (cases b)
    from assms \<open>match_core s = Some a\<close> a Some b
    have "g = g1\<lparr>zoneStr := z, signSymbol := sg, offHourStr := oh, offMinStr := om\<rparr>"
      by (simp add: isoMatch_def)
    then show ?thesis using that \<open>match_core s = Some a\<close> a Some b by simp
  qed
qed


lemma offsetMinutes_localParts [simp]: "offsetMinutes (localParts rt t off) = off"
  by (simp add: localParts_def)





lemma match_fraction_extend:
  assumes "match_fraction s = (fr, [])" "core_end rest"
  shows "match_fraction (s @ rest) = (fr, rest)"
proof (cases s)
  case Nil
  with assms(1) have "fr = None" by (simp add: match_fraction_def)
  with Nil assms(2) show ?thesis
    by (cases rest) (auto simp: match_fraction_def core_end_def)
next
  case (Cons c u)
  show ?thesis
  proof (cases "(c = CHR ''.'' \<or> c = CHR '','') \<and> takeWhile is_digit u \<noteq> []")
    case True
    with assms(1) Cons have fr: "fr = Some (takeWhile is_digit u)" and d: "dropWhile is_digit u = []"
      by (simp_all add: match_fraction_def)
    from d have all: "\<forall>x\<in>set u. is_digit x" by simp
    have tw: "takeWhile is_digit (u @ rest) = u"
      using all assms(2) by (cases rest) (auto simp: core_end_def takeWhile_append2)
    have dw: "dropWhile is_digit (u @ rest) = rest"
      using all assms(2) by (cases rest) (auto simp: core_end_def dropWhile_append2)
    have twu: "takeWhile is_digit u = u" using all by simp
    have une: "u \<noteq> []" using True twu by auto
    have "match_fraction ((c # u) @ rest) =
        (if (c = CHR ''.'' \<or> c = CHR '','') \<and> takeWhile is_digit (u @ rest) \<noteq> []
         then (Some (takeWhile is_digit (u @ rest)), dropWhile is_digit (u @ rest))
         else (None, (c # u) @ rest))"
      by (simp add: match_fraction_def)
    also have "\<dots> = (Some u, rest)" unfolding tw dw using True une by simp
    finally show ?thesis unfolding Cons fr twu .
  next
    case False
    with assms(1) Cons show ?thesis by (auto simp: match_fraction_def)
  qed
qed

lemma match_seconds_extend:
  assumes "match_seconds s = (sec, fr, [])" "core_end rest"
  shows "match_seconds (s @ rest) = (sec, fr, rest)"
proof (cases s)
  case Nil
  with assms(1) have "sec = None" "fr = None" by (simp_all add: match_seconds_def expect_def)
  with Nil assms(2) show ?thesis
    by (cases rest) (auto simp: match_seconds_def expect_def core_end_def)
next
  case (Cons c t)
  have c: "c = CHR '':''"
    using assms(1) Cons by (auto simp: match_seconds_def expect_def split: if_splits)
  obtain x r2 where td: "take_digits 2 t = Some (x, r2)"
    using assms(1) Cons c by (cases "take_digits 2 t") (auto simp: match_seconds_def expect_def)
  obtain fr' r3 where mf: "match_fraction r2 = (fr', r3)" by (cases "match_fraction r2")
  from assms(1) Cons c td mf have res: "sec = Some x" "fr = fr'" "r3 = []"
    by (simp_all add: match_seconds_def expect_def)
  note t = take_digits_Some[OF td]
  have td': "take_digits 2 (t @ rest) = Some (x, r2 @ rest)"
    using take_digits_append[of x 2 "r2 @ rest"] t by simp
  have mf': "match_fraction (r2 @ rest) = (fr, rest)"
    using mf res assms(2) by (intro match_fraction_extend) simp_all
  show ?thesis using Cons c td' mf' res by (simp add: match_seconds_def expect_def)
qed

lemma match_core_extend:
  assumes "match_core dt = Some (g, [])" "core_end rest"
  shows "match_core (dt @ rest) = Some (g, rest)"
proof -
  from assms(1) obtain y mo d sep h mi t sec fr where
    s: "dt = y @ CHR ''-'' # mo @ CHR ''-'' # d @ sep # h @ CHR '':'' # mi @ t"
    and dg: "length y = 4" "list_all is_digit y" "length mo = 2" "list_all is_digit mo"
    "length d = 2" "list_all is_digit d" "sep = CHR '' '' \<or> sep = CHR ''T''"
    "length h = 2" "list_all is_digit h" "length mi = 2" "list_all is_digit mi"
    and ms: "match_seconds t = (sec, fr, [])"
    and g: "g = \<lparr>yearStr = y, monthStr = mo, dayStr = d, hourStr = h, minuteStr = mi,
          secondStr = sec, fractionStr = fr, zoneStr = None, signSymbol = None,
          offHourStr = None, offMinStr = None\<rparr>"
    by (rule match_core_SomeE)
  have ms': "match_seconds (t @ rest) = (sec, fr, rest)" using ms assms(2) by (rule match_seconds_extend)
  have "dt @ rest = y @ CHR ''-'' # mo @ CHR ''-'' # d @ sep # h @ CHR '':'' # mi @ (t @ rest)"
    using s by simp
  then show ?thesis unfolding g using match_core_I[OF dg ms'] by simp
qed

lemma isoMatch_no_zone_core:
  assumes "isoMatch dt = Some g" "zoneStr g = None"
  shows "match_core dt = Some (g, [])"
proof -
  from assms(1) obtain g1 rest z sg oh om where mc: "match_core dt = Some (g1, rest)"
    and mz: "match_zone rest = Some (z, sg, oh, om)"
    and g: "g = g1\<lparr>zoneStr := z, signSymbol := sg, offHourStr := oh, offMinStr := om\<rparr>"
    by (rule isoMatch_SomeE)
  have z: "z = None" using assms(2) g by simp
  from mz z have r: "rest = []" "sg = None" "oh = None" "om = None"
    by (cases rule: match_zone_cases; simp)+
  from mc obtain y mo d h mi sec fr where
    "g1 = \<lparr>yearStr = y, monthStr = mo, dayStr = d, hourStr = h, minuteStr = mi,
          secondStr = sec, fractionStr = fr, zoneStr = None, signSymbol = None,
          offHourStr = None, offMinStr = None\<rparr>"
    by (rule match_core_SomeE)
  then have "g = g1" using g z r by simp
  then show ?thesis using mc r(1) by simp
qed

lemma zone_char_not_space: "c = CHR ''Z'' \<or> c = CHR ''z'' \<or> c = CHR ''+'' \<or> c = CHR ''-'' \<Longrightarrow> \<not> is_space c"
  by (auto simp: is_space_def)

lemma core_end_zone:
  assumes "list_all is_space ws" "c = CHR ''Z'' \<or> c = CHR ''z'' \<or> c = CHR ''+'' \<or> c = CHR ''-''"
  shows "core_end (ws @ c # r)"
proof (cases ws)
  case Nil
  with assms(2) show ?thesis by (auto simp: core_end_def is_digit_def)
next
  case (Cons a list)
  with assms(1) have "is_space a" by simp
  then have "\<not> is_digit a" "a \<notin> set '':.,''" by (auto simp: is_space_def is_digit_def)
  with Cons show ?thesis by (simp add: core_end_def)
qed

lemma dropWhile_space_zone:
  assumes "list_all is_space ws" "c = CHR ''Z'' \<or> c = CHR ''z'' \<or> c = CHR ''+'' \<or> c = CHR ''-''"
  shows "dropWhile is_space (ws @ c # r) = c # r"
  using assms zone_char_not_space[OF assms(2)] by (simp add: list_all_iff dropWhile_append2)

lemma isoMatch_zulu:
  assumes "isoMatch dt = Some g" "zoneStr g = None" "list_all is_space ws"
    "c = CHR ''Z'' \<or> c = CHR ''z''"
  shows "isoMatch (dt @ ws @ [c]) = Some (g\<lparr>zoneStr := Some [c]\<rparr>)"
proof -
  have c': "c = CHR ''Z'' \<or> c = CHR ''z'' \<or> c = CHR ''+'' \<or> c = CHR ''-''" using assms(4) by blast
  have mc: "match_core (dt @ ws @ [c]) = Some (g, ws @ [c])"
    using isoMatch_no_zone_core[OF assms(1,2)] core_end_zone[OF assms(3) c'] by (rule match_core_extend)
  have mz: "match_zone (ws @ [c]) = Some (Some [c], None, None, None)"
    using match_zone_unfold[of "ws @ [c]" c "[]"] dropWhile_space_zone[OF assms(3) c', of "[]"] assms(4)
    by auto
  from isoMatch_no_zone_core[OF assms(1,2)] obtain y mo d h mi sec fr where
    "g = \<lparr>yearStr = y, monthStr = mo, dayStr = d, hourStr = h, minuteStr = mi,
          secondStr = sec, fractionStr = fr, zoneStr = None, signSymbol = None,
          offHourStr = None, offMinStr = None\<rparr>"
    by (rule match_core_SomeE)
  then show ?thesis using mc mz by (simp add: isoMatch_def)
qed

lemma isoMatch_signed:
  assumes "isoMatch dt = Some g" "zoneStr g = None" "list_all is_space ws"
    "c = CHR ''+'' \<or> c = CHR ''-''" "length hh = 2" "list_all is_digit hh"
    "colon = [] \<or> colon = '':''" "length mm = 2" "list_all is_digit mm"
  shows "isoMatch (dt @ ws @ c # hh @ colon @ mm) =
     Some (g\<lparr>zoneStr := Some (c # hh @ colon @ mm), signSymbol := Some [c],
             offHourStr := Some hh, offMinStr := Some mm\<rparr>)"
proof -
  let ?r = "hh @ colon @ mm"
  have c': "c = CHR ''Z'' \<or> c = CHR ''z'' \<or> c = CHR ''+'' \<or> c = CHR ''-''" using assms(4) by blast
  have cz: "\<not> (c = CHR ''Z'' \<or> c = CHR ''z'')" using assms(4) by auto
  have mc: "match_core (dt @ ws @ c # ?r) = Some (g, ws @ c # ?r)"
    using isoMatch_no_zone_core[OF assms(1,2)] core_end_zone[OF assms(3) c'] by (rule match_core_extend)
  have t1: "take_digits 2 ?r = Some (hh, colon @ mm)"
    using assms(5,6) by (rule take_digits_append)
  have mm_hd: "mm \<noteq> []" "is_digit (hd mm)" using assms(8,9) by (cases mm; simp)+
  have e: "(case expect (\<lambda>c. c = CHR '':'') (colon @ mm) of Some x \<Rightarrow> x | None \<Rightarrow> colon @ mm) = mm"
  proof (cases "colon = []")
    case True
    obtain m1 mt where "mm = m1 # mt" using mm_hd(1) by (cases mm) auto
    moreover then have "m1 \<noteq> CHR '':''" using mm_hd(2) by (auto simp: is_digit_def)
    ultimately show ?thesis using True by (simp add: expect_def)
  next
    case False
    with assms(7) have "colon = '':''" by simp
    then show ?thesis by (simp add: expect_def)
  qed
  have t2: "take_digits 2 mm = Some (mm, [])"
    using take_digits_append[OF assms(8,9), of "[]"] by simp
  have mz: "match_zone (ws @ c # ?r) = Some (Some (c # ?r), Some [c], Some hh, Some mm)"
    using match_zone_unfold[of "ws @ c # ?r" c ?r] dropWhile_space_zone[OF assms(3) c', of ?r]
      assms(4) cz t1 e t2
    by simp
  from isoMatch_no_zone_core[OF assms(1,2)] obtain y mo d h mi sec fr where
    "g = \<lparr>yearStr = y, monthStr = mo, dayStr = d, hourStr = h, minuteStr = mi,
          secondStr = sec, fractionStr = fr, zoneStr = None, signSymbol = None,
          offHourStr = None, offMinStr = None\<rparr>"
    by (rule match_core_SomeE)
  then show ?thesis using mc mz by (simp add: isoMatch_def)
qed

lemma match_fraction_digits:
  assumes "match_fraction s = (Some f, r)"
  shows "f \<noteq> [] \<and> list_all is_digit f"
proof (cases s)
  case Nil
  with assms show ?thesis by (simp add: match_fraction_def)
next
  case (Cons c t)
  with assms have "f = takeWhile is_digit t" "takeWhile is_digit t \<noteq> []"
    by (auto simp: match_fraction_def split: if_splits)
  then show ?thesis by (auto simp: list_all_iff dest: set_takeWhileD)
qed

lemma match_seconds_fraction_digits:
  assumes "match_seconds s = (sec, Some f, r)"
  shows "f \<noteq> [] \<and> list_all is_digit f"
proof (cases "expect (\<lambda>c. c = CHR '':'') s")
  case None
  with assms show ?thesis by (simp add: match_seconds_def)
next
  case (Some t)
  show ?thesis
  proof (cases "take_digits 2 t")
    case None
    with assms Some show ?thesis by (simp add: match_seconds_def)
  next
    case (Some a)
    obtain x r2 where a: "a = (x, r2)" by (cases a)
    obtain fr' r3 where mf: "match_fraction r2 = (fr', r3)" by (cases "match_fraction r2")
    from assms \<open>expect (\<lambda>c. c = CHR '':'') s = Some t\<close> Some a mf have "fr' = Some f"
      by (simp add: match_seconds_def)
    with mf have "match_fraction r2 = (Some f, r3)" by simp
    then show ?thesis by (rule match_fraction_digits)
  qed
qed

lemma isoMatch_fraction_digits:
  assumes "isoMatch s = Some g" "fractionStr g = Some f"
  shows "f \<noteq> [] \<and> list_all is_digit f \<and>
         (\<exists>v. parseInt10 (padEnd 3 CHR ''0'' (take 3 f)) = Some v)"
proof -
  from assms(1) obtain g1 rest z sg oh om where mc: "match_core s = Some (g1, rest)"
    and g: "g = g1\<lparr>zoneStr := z, signSymbol := sg, offHourStr := oh, offMinStr := om\<rparr>"
    by (rule isoMatch_SomeE)
  from mc obtain y mo d h mi t sec fr where
    ms: "match_seconds t = (sec, fr, rest)"
    and g1: "g1 = \<lparr>yearStr = y, monthStr = mo, dayStr = d, hourStr = h, minuteStr = mi,
          secondStr = sec, fractionStr = fr, zoneStr = None, signSymbol = None,
          offHourStr = None, offMinStr = None\<rparr>"
    by (rule match_core_SomeE)
  have "fr = Some f" using assms(2) g g1 by simp
  with ms have "match_seconds t = (sec, Some f, rest)" by simp
  from match_seconds_fraction_digits[OF this] have f: "f \<noteq> []" "list_all is_digit f" by simp_all
  let ?p = "padEnd 3 CHR ''0'' (take 3 f)"
  have "?p \<noteq> []" using f(1) by (simp add: padEnd_def)
  moreover have "list_all is_digit ?p"
  proof -
    have z: "is_digit CHR ''0''" by (simp add: is_digit_def)
    have "\<forall>x\<in>set (take 3 f). is_digit x"
      using f(2) by (auto simp: list_all_iff dest: in_set_takeD)
    with z show ?thesis by (auto simp: padEnd_def list_all_iff)
  qed
  ultimately have "parseInt10 ?p = Some (int (digits_val ?p))" by (rule parseInt10_digits)
  with f show ?thesis by blast
qed




lemma show_nat_digit: "n < 10 \<Longrightarrow> show_nat n = [digit_char n]"
  by (simp add: show_nat.simps)

lemma pad_two_digits:
  assumes "0 \<le> n" "n < 100"
  shows "pad n = [digit_char (nat n div 10), digit_char (nat n mod 10)]"
proof (cases "n < 10")
  case True
  then have "nat n < 10" using assms by simp
  then have "show_nat (nat n) = [digit_char (nat n)]" "nat n div 10 = 0" "nat n mod 10 = nat n"
    by (simp_all add: show_nat_digit)
  then show ?thesis using assms by (simp add: pad_def padStart_def show_int_def digit_char_def)
next
  case False
  then have n: "10 \<le> nat n" "nat n < 100" using assms by simp_all
  then have d: "nat n div 10 < 10" by simp
  have "show_nat (nat n) = show_nat (nat n div 10) @ [digit_char (nat n mod 10)]"
    using n(1) by (subst show_nat.simps) simp
  then have "show_nat (nat n) = [digit_char (nat n div 10), digit_char (nat n mod 10)]"
    using d by (simp add: show_nat_digit)
  then show ?thesis using assms by (simp add: pad_def padStart_def show_int_def)
qed



end
